theory Spec2Isabelle
  imports Complex_Main "HOL-Library.Sublist"
begin

section \<open>Values, errors and halt records\<close>

text \<open>
  The queue is a JavaScript class whose helpers return promises. The model keeps the
  queue's fields in a record and turns every helper into a function on that record.
  A helper that returns a promise is split the way the interpreter runs it: the part
  that runs before the helper returns (it may already call callbacks and set flags),
  and the handlers it attached with \<open>then\<close> and \<open>catch\<close>, which run on a later turn.
  The second part is described by a value of type \<open>pending\<close> and executed by \<open>await\<close>.

  Three kinds of promises are kept apart. The promise of a launched task or of the
  processor settles whenever the run says so. An item taken from the queue waits for the
  promises of the callbacks called for it (\<open>queueSizeChange\<close>, \<open>queueEmpty\<close>, then
  \<open>beforeItemProcessed\<close>) before it is launched; these too settle whenever the run
  says so, and other turns of the event loop may come in between. The promise of any other
  callback settles within the turn that called the callback.

  The values thrown around are such that the assignment \<open>ex.source = SRC\<close> succeeds: any
  value that is not an \<open>Error\<close> (it is wrapped in a new \<open>WorkQueueError\<close> first) and any
  \<open>Error\<close> that is extensible with a writable \<open>source\<close>. On these values \<open>_halt\<close>
  resolves its promise on every path, so \<open>_halt\<close>, \<open>_onError\<close> and \<open>_callHandler\<close>
  never reject, and the \<open>catch\<close> handlers of the source that only pass such a
  rejection on (its internal-error branches) have no counterpart here. An \<open>Error\<close> that
  was frozen, or whose \<open>source\<close> is read-only, makes that assignment throw a
  \<open>TypeError\<close> in strict mode; such objects are not among the values below.
\<close>

datatype error_source = CALLBACK | PROCESS | INTERNAL | BADREQUEST

datatype halt_reason = CALLBACKRETVAL | ERRORCALLBACKERROR | PROCESSRETVAL | HALT_INTERNAL

text \<open>
  The values that travel through the queue. \<open>JError m src\<close> is an instance of
  \<open>Error\<close> built from \<open>m\<close>, whose \<open>source\<close> property is \<open>src\<close> (\<open>None\<close> for a plain
  \<open>Error\<close> that was never tagged). \<open>JHaltData reason error callback\<close> is a
  \<open>WorkQueueHaltData\<close>; a field that was not given is \<open>JUndefined\<close>.
\<close>

datatype jsval =
    JUndefined
  | JNull
  | JBool bool
  | JNum int
  | JStr string
  | JError jsval "error_source option"
  | JHaltData halt_reason jsval jsval

text \<open>The constructor of \<open>WorkQueueError\<close>: the source defaults to INTERNAL.\<close>

definition new_WorkQueueError :: "jsval \<Rightarrow> error_source option \<Rightarrow> jsval" where
  "new_WorkQueueError message source =
     JError message (Some (case source of None \<Rightarrow> INTERNAL | Some src \<Rightarrow> src))"

fun instanceof_Error :: "jsval \<Rightarrow> bool" where
  "instanceof_Error (JError m src) = True"
| "instanceof_Error v = False"

text \<open>
  The idiom repeated at every failure boundary of the source:
  \<^verbatim>\<open>if (!(ex instanceof Error)) { ex = new WorkQueueError(ex); }  ex.source = SRC;\<close>
  The assignment replaces whatever \<open>source\<close> the error had. On the values of this
  theory it always succeeds; the \<open>Error\<close> objects on which it throws are left out, as
  said above, and with them the paths of the source that such a throw would take.
\<close>

fun set_source :: "error_source \<Rightarrow> jsval \<Rightarrow> jsval" where
  "set_source src (JError m old) = JError m (Some src)"
| "set_source src v = v"

definition tag_error :: "error_source \<Rightarrow> jsval \<Rightarrow> jsval" where
  "tag_error src ex =
     set_source src (if instanceof_Error ex then ex else new_WorkQueueError ex None)"

definition BEFORE_HALT :: jsval where "BEFORE_HALT = JStr ''BEFORE_CALLBACK_VALS_HALT''"
definition BEFORE_CONTINUE :: jsval where "BEFORE_CONTINUE = JStr ''BEFORE_CALLBACK_VALS_CONTINUE''"
definition BEFORE_SKIP :: jsval where "BEFORE_SKIP = JStr ''BEFORE_CALLBACK_VALS_SKIP''"

section \<open>Callbacks, items and the queue\<close>

text \<open>
  What a call of a user function does: it throws, returns a value that is not a
  promise, or returns a promise that is fulfilled or rejected.
\<close>

datatype outcome = Throws jsval | Returns jsval | Resolves jsval | Rejects jsval

datatype event =
    EvError | EvHalted | EvQueueSizeChange | EvQueueEmpty | EvNoWork | EvItemProcessed
  | EvBeforeItemProcessed | EvPaused | EvResumed | EvAfterHaltCompleted | EvAfterPauseCompleted

fun event_name :: "event \<Rightarrow> string" where
  "event_name EvError = ''error''"
| "event_name EvHalted = ''halted''"
| "event_name EvQueueSizeChange = ''queueSizeChange''"
| "event_name EvQueueEmpty = ''queueEmpty''"
| "event_name EvNoWork = ''noWork''"
| "event_name EvItemProcessed = ''itemProcessed''"
| "event_name EvBeforeItemProcessed = ''beforeItemProcessed''"
| "event_name EvPaused = ''paused''"
| "event_name EvResumed = ''resumed''"
| "event_name EvAfterHaltCompleted = ''afterHaltCompleted''"
| "event_name EvAfterPauseCompleted = ''afterPauseCompleted''"

text \<open>
  A callback may keep state of its own between calls, so its outcome is a function of
  how often the hook was called before and of the argument it receives.
\<close>

type_synonym callback = "nat \<Rightarrow> jsval \<Rightarrow> outcome"

text \<open>
  An enqueued item is a function (\<open>Task\<close>, with a label and what calling it does) or any
  other value, which is handed to the processor.
\<close>

datatype item = Task nat outcome | Payload jsval

fun is_function :: "item \<Rightarrow> bool" where
  "is_function (Task l out) = True"
| "is_function (Payload v) = False"

datatype settlement = Fulfilled jsval | Rejected jsval

text \<open>
  The trace records what an observer of the queue can see: calls of the registered
  callbacks with their argument, items entering and leaving the queue, calls of a task
  or of the processor, and the moment an item stops being in progress.
\<close>

datatype obs =
    Called event jsval
  | Enqueued item
  | Dequeued item
  | Cleared "item list"
  | Launched item
  | Completed item

text \<open>
  What is left to do once a helper has returned its promise: nothing, or look at what a
  callback returned, or pass on the failure of the halted callback.
\<close>

datatype pending =
    Settled
  | HandlerReturned event outcome
  | ErrorHandlerReturned outcome
  | HaltedRejected jsval

text \<open>
  Where an item taken from the queue stands inside \<open>_retrieveNextPromise\<close>: the
  queue-size callbacks have been called and their promises are awaited, or
  \<open>beforeItemProcessed\<close> has been called and its promise is awaited.
\<close>

datatype stage = SizeChangeCalled "pending list" | BeforeItemCalled pending

record wq =
  concurrencyLimit :: rat
  processor :: "(jsval \<Rightarrow> outcome) option"
  queue :: "item list"
  inProgressCount :: int
  callbacks :: "event \<Rightarrow> callback option"
  halted :: bool
  paused :: bool
  retrieving :: "(item \<times> stage) list"
  inflight :: "(item \<times> settlement) list"
  trace :: "obs list"

text \<open>
  \<open>concurrencyLimit\<close> is \<open>_options.concurrencyLimit\<close>, a number that need not be whole.
  \<open>retrieving\<close> holds the items taken from the queue that have not been launched yet,
  each with the promises it waits for; \<open>inflight\<close> holds the promises returned by
  launched items that have not settled yet (in the source both live in the
  interpreter, not in a field), and \<open>trace\<close> is the observer's log. The other fields
  are those of the class.
\<close>

fun is_call_of :: "event \<Rightarrow> obs \<Rightarrow> bool" where
  "is_call_of ev (Called ev' a) = (ev' = ev)"
| "is_call_of ev other = False"

definition calls_of :: "event \<Rightarrow> obs list \<Rightarrow> nat" where
  "calls_of ev tr = length (filter (is_call_of ev) tr)"

text \<open>Calling a registered callback: the call is logged and its outcome returned.\<close>

definition invoke :: "event \<Rightarrow> callback \<Rightarrow> jsval \<Rightarrow> wq \<Rightarrow> outcome \<times> wq" where
  "invoke ev cb arg s =
     (cb (calls_of ev (trace s)) arg, s\<lparr>trace := trace s @ [Called ev arg]\<rparr>)"

section \<open>Halting and the hook invocation protocol\<close>

text \<open>
  \<open>_onHalted\<close> calls the halted callback. Its promise is rejected, with the failure
  tagged CALLBACK, when the callback throws or its promise rejects.
\<close>

definition onHalted :: "jsval \<Rightarrow> wq \<Rightarrow> wq \<times> pending" where
  "onHalted reason s =
     (case callbacks s EvHalted of
        None \<Rightarrow> (s, Settled)
      | Some cb \<Rightarrow>
          (case invoke EvHalted cb reason s of
             (Throws ex, s1) \<Rightarrow> (s1, HaltedRejected (tag_error CALLBACK ex))
           | (Rejects err, s1) \<Rightarrow> (s1, HaltedRejected (tag_error CALLBACK err))
           | (Returns v, s1) \<Rightarrow> (s1, Settled)
           | (Resolves v, s1) \<Rightarrow> (s1, Settled)))"

text \<open>\<open>_halt\<close>: nothing when already halted; otherwise set the flag, then call the callback.\<close>

definition halt :: "jsval \<Rightarrow> wq \<Rightarrow> wq \<times> pending" where
  "halt reason s =
     (if halted s then (s, Settled)
      else onHalted reason (s\<lparr>halted := True\<rparr>))"

text \<open>
  \<open>_onError\<close>: the error callback is called at once. If it throws, \<open>_halt\<close> runs before
  \<open>_onError\<close> returns; what it returns is looked at on a later turn.
\<close>

definition onError :: "jsval \<Rightarrow> wq \<Rightarrow> wq \<times> pending" where
  "onError err s =
     (case callbacks s EvError of
        None \<Rightarrow> (s, Settled)
      | Some cb \<Rightarrow>
          (case invoke EvError cb err s of
             (Throws ex, s1) \<Rightarrow>
               halt (JHaltData ERRORCALLBACKERROR ex (JStr ''error'')) s1
           | (out, s1) \<Rightarrow> (s1, ErrorHandlerReturned out)))"

text \<open>\<open>_callHandler\<close>: a callback that throws is reported to \<open>_onError\<close> at once.\<close>

definition callHandler :: "event \<Rightarrow> jsval \<Rightarrow> wq \<Rightarrow> wq \<times> pending" where
  "callHandler ev parameter s =
     (case callbacks s ev of
        None \<Rightarrow> (s, Settled)
      | Some cb \<Rightarrow>
          (case invoke ev cb parameter s of
             (Throws ex, s1) \<Rightarrow> onError (tag_error CALLBACK ex) s1
           | (out, s1) \<Rightarrow> (s1, HandlerReturned ev out)))"

fun rank :: "pending \<Rightarrow> nat" where
  "rank Settled = 0"
| "rank (ErrorHandlerReturned out) = 1"
| "rank (HaltedRejected err) = 2"
| "rank (HandlerReturned ev out) = 3"

definition weight :: "pending \<times> wq \<Rightarrow> nat" where
  "weight ps = (if halted (snd ps) then 0 else 4) + rank (fst ps)"

text \<open>
  The handlers attached with \<open>then\<close> and \<open>catch\<close>:
  \<^item> in \<open>_halt\<close>, a rejected \<open>_onHalted\<close> is passed to \<open>_onError\<close>;
  \<^item> in \<open>_onError\<close>, a callback that returned \<open>false\<close> or whose promise rejected halts;
  \<^item> in \<open>_callHandler\<close>, a callback that returned \<open>false\<close> or HALT halts, and a rejected
    promise is tagged CALLBACK and passed to \<open>_onError\<close>.
\<close>

function await :: "pending \<Rightarrow> wq \<Rightarrow> wq" where
  "await Settled s = s"
| "await (HaltedRejected err) s =
     (case onError err s of (s1, p) \<Rightarrow> await p s1)"
| "await (ErrorHandlerReturned out) s =
     (case out of
        Rejects err \<Rightarrow>
          (case halt (JHaltData ERRORCALLBACKERROR err (JStr ''error'')) s of
             (s1, p) \<Rightarrow> await p s1)
      | Throws ex \<Rightarrow> s
      | Returns v \<Rightarrow>
          (if v = JBool False
           then (case halt (JHaltData CALLBACKRETVAL JUndefined (JStr ''error'')) s of
                   (s1, p) \<Rightarrow> await p s1)
           else s)
      | Resolves v \<Rightarrow>
          (if v = JBool False
           then (case halt (JHaltData CALLBACKRETVAL JUndefined (JStr ''error'')) s of
                   (s1, p) \<Rightarrow> await p s1)
           else s))"
| "await (HandlerReturned ev out) s =
     (case out of
        Rejects err \<Rightarrow>
          (case onError (tag_error CALLBACK err) s of (s1, p) \<Rightarrow> await p s1)
      | Throws ex \<Rightarrow> s
      | Returns v \<Rightarrow>
          (if v = JBool False \<or> v = BEFORE_HALT
           then (case halt (JHaltData CALLBACKRETVAL JUndefined (JStr (event_name ev))) s of
                   (s1, p) \<Rightarrow> await p s1)
           else s)
      | Resolves v \<Rightarrow>
          (if v = JBool False \<or> v = BEFORE_HALT
           then (case halt (JHaltData CALLBACKRETVAL JUndefined (JStr (event_name ev))) s of
                   (s1, p) \<Rightarrow> await p s1)
           else s))"
  by pat_completeness auto
termination
proof -
  have inv: "\<And>ev cb arg s. halted (snd (invoke ev cb arg s)) = halted s"
    by (simp add: invoke_def)
  have wH: "\<And>r s. halted s \<Longrightarrow> weight (prod.swap (onHalted r s)) \<le> 2"
    by (auto simp: onHalted_def weight_def invoke_def split: option.splits outcome.splits)
  have wh: "\<And>r s. weight (prod.swap (halt r s)) \<le> (if halted s then 0 else 4)"
    subgoal for r s
      using wH [of "s\<lparr>halted := True\<rparr>" r] by (auto simp: halt_def weight_def)
    done
  have wE: "\<And>e s. weight (prod.swap (onError e s)) \<le> (if halted s then 0 else 4) + 1"
    subgoal for e s
    proof (cases "callbacks s EvError")
      case None
      then show ?thesis by (simp add: onError_def weight_def)
    next
      case (Some cb)
      obtain out s1 where i: "invoke EvError cb e s = (out, s1)"
        by (cases "invoke EvError cb e s")
      then have h: "halted s1 = halted s" using inv [of EvError cb e s] by simp
      show ?thesis
      proof (cases out)
        case (Throws ex)
        then show ?thesis
          using Some i h wh [of "JHaltData ERRORCALLBACKERROR ex (JStr ''error'')" s1]
          by (simp add: onError_def)
      qed (use Some i h in \<open>simp_all add: onError_def weight_def\<close>)
    qed
    done
  have dE: "\<And>x y e s. (x, y) = onError e s \<Longrightarrow> weight (y, x) \<le> (if halted s then 0 else 4) + 1"
    subgoal for x y e s using wE [of e s] by (cases "onError e s") simp
    done
  have dh: "\<And>x y r s. (x, y) = halt r s \<Longrightarrow> weight (y, x) \<le> (if halted s then 0 else 4)"
    subgoal for x y r s using wh [of r s] by (cases "halt r s") simp
    done
  show ?thesis
    apply (relation "measure weight")
     apply simp
    apply (auto simp: weight_def dest!: dE dh split: if_splits)
    done
qed

text \<open>Running a helper and waiting until the promise it returned has settled.\<close>

definition finish :: "(wq \<Rightarrow> wq \<times> pending) \<Rightarrow> wq \<Rightarrow> wq" where
  "finish f s = (case f s of (s1, p) \<Rightarrow> await p s1)"

text \<open>\<open>Promise.all\<close>: the handlers of the promises run in the order the promises were made.\<close>

definition await_all :: "pending list \<Rightarrow> wq \<Rightarrow> wq" where
  "await_all ps s = fold await ps s"

definition finish_all :: "(wq \<Rightarrow> wq \<times> pending list) \<Rightarrow> wq \<Rightarrow> wq" where
  "finish_all f s = (case f s of (s1, ps) \<Rightarrow> await_all ps s1)"

text \<open>
  The value the promise of \<open>_callHandler\<close> resolves to: what the callback returned, or
  \<open>undefined\<close> when there is no callback or its failure went to the error handler.
\<close>

fun resolved_value :: "pending \<Rightarrow> jsval" where
  "resolved_value (HandlerReturned ev (Returns v)) = v"
| "resolved_value (HandlerReturned ev (Resolves v)) = v"
| "resolved_value p = JUndefined"

definition getQueueSize :: "wq \<Rightarrow> nat" where
  "getQueueSize s = length (queue s)"

definition getInProgressCount :: "wq \<Rightarrow> int" where
  "getInProgressCount s = inProgressCount s"

definition hasWork :: "wq \<Rightarrow> bool" where
  "hasWork s = (0 < getQueueSize s \<or> 0 < getInProgressCount s)"

definition onQueueSizeChange :: "wq \<Rightarrow> wq \<times> pending list" where
  "onQueueSizeChange s =
     (let queueSize = getQueueSize s in
      case callHandler EvQueueSizeChange (JNum (int queueSize)) s of
        (s1, p1) \<Rightarrow>
          if queueSize = 0
          then (case callHandler EvQueueEmpty JUndefined s1 of (s2, p2) \<Rightarrow> (s2, [p1, p2]))
          else (s1, [p1]))"

definition onNoWork :: "wq \<Rightarrow> wq \<times> pending" where
  "onNoWork = callHandler EvNoWork JUndefined"

definition onItemProcessed :: "jsval \<Rightarrow> wq \<Rightarrow> wq \<times> pending" where
  "onItemProcessed processResult = callHandler EvItemProcessed processResult"

definition onBeforeItemProcessed :: "wq \<Rightarrow> wq \<times> pending" where
  "onBeforeItemProcessed = callHandler EvBeforeItemProcessed JUndefined"

definition onPaused :: "wq \<Rightarrow> wq \<times> pending" where
  "onPaused = callHandler EvPaused JUndefined"

definition onResumed :: "wq \<Rightarrow> wq \<times> pending" where
  "onResumed = callHandler EvResumed JUndefined"

definition onAfterHaltCompleted :: "wq \<Rightarrow> wq \<times> pending" where
  "onAfterHaltCompleted = callHandler EvAfterHaltCompleted JUndefined"

definition onAfterPauseCompleted :: "wq \<Rightarrow> wq \<times> pending" where
  "onAfterPauseCompleted = callHandler EvAfterPauseCompleted JUndefined"

section \<open>The evaluation engine\<close>

text \<open>
  What the call of a task or of the processor gives: a thrown value is tagged PROCESS, a
  returned value that is not a promise is a BADREQUEST error, a promise is kept.
\<close>

fun promise_of :: "outcome \<Rightarrow> jsval + settlement" where
  "promise_of (Throws ex) = Inl (tag_error PROCESS ex)"
| "promise_of (Returns v) =
     Inl (new_WorkQueueError (JStr ''Enqueued function did not return a Promise'')
            (Some BADREQUEST))"
| "promise_of (Resolves v) = Inr (Fulfilled v)"
| "promise_of (Rejects err) = Inr (Rejected err)"

definition launch :: "item \<Rightarrow> wq \<Rightarrow> (jsval + settlement) \<times> wq" where
  "launch nextItem s =
     (case nextItem of
        Task l out \<Rightarrow> (promise_of out, s\<lparr>trace := trace s @ [Launched nextItem]\<rparr>)
      | Payload v \<Rightarrow>
          (case processor s of
             None \<Rightarrow>
               (Inl (new_WorkQueueError
                       (JStr ''Enqueued item is not a function, and processor was not defined'')
                       (Some BADREQUEST)), s)
           | Some p \<Rightarrow> (promise_of (p v), s\<lparr>trace := trace s @ [Launched nextItem]\<rparr>)))"

text \<open>\<open>Array.prototype.shift\<close>: the first element and the rest; \<open>undefined\<close> on an empty array.\<close>

definition shift :: "item list \<Rightarrow> item \<times> item list" where
  "shift q = (case q of [] \<Rightarrow> (Payload JUndefined, []) | x # xs \<Rightarrow> (x, xs))"

text \<open>
  \<open>_retrieveNextPromise\<close>, the part that runs at once: shift the queue, count the item as
  in progress and call the queue-size callbacks. The item then waits for their promises.
\<close>

definition retrieveNextPromise :: "wq \<Rightarrow> wq" where
  "retrieveNextPromise s =
     (let nextItem = fst (shift (queue s));
          s1 = s\<lparr>queue := snd (shift (queue s)), inProgressCount := inProgressCount s + 1,
                 trace := trace s @ [Dequeued nextItem]\<rparr>
      in case onQueueSizeChange s1 of
           (s2, ps) \<Rightarrow> s2\<lparr>retrieving := retrieving s2 @ [(nextItem, SizeChangeCalled ps)]\<rparr>)"

text \<open>
  Its handler on the promise of \<open>_onQueueSizeChange\<close>: once the queue-size callbacks are
  done with, \<open>beforeItemProcessed\<close> is called.
\<close>

definition retrieveNextPromise_sizeChanged :: "pending list \<Rightarrow> wq \<Rightarrow> wq \<times> pending" where
  "retrieveNextPromise_sizeChanged ps s = onBeforeItemProcessed (await_all ps s)"

text \<open>
  Its handler on the promise of \<open>_onBeforeItemProcessed\<close>: the item is launched unless
  the callback said SKIP, HALT or \<open>false\<close>. The result is the promise of the launch, or
  \<open>None\<close> where the source resolves with nothing. The halted and paused flags are not
  looked at here.
\<close>

definition retrieveNextPromise_beforeItem ::
  "item \<Rightarrow> pending \<Rightarrow> wq \<Rightarrow> settlement option \<times> wq" where
  "retrieveNextPromise_beforeItem nextItem p s =
     (let s4 = await p s;
          beforeItemCallbackResult = resolved_value p
      in if beforeItemCallbackResult = BEFORE_SKIP
            \<or> beforeItemCallbackResult = BEFORE_HALT
            \<or> beforeItemCallbackResult = JBool False
         then (None, s4)
         else (case launch nextItem s4 of
                 (Inr nextItemPromise, s5) \<Rightarrow> (Some nextItemPromise, s5)
               | (Inl ex, s5) \<Rightarrow> (None, finish (onError ex) s5)))"

text \<open>
  \<open>_processNextItem\<close>, the handlers on the promise of the launched item: a fulfilled
  promise goes to \<open>itemProcessed\<close> and halts when the value is \<open>false\<close>; a rejected one
  is tagged PROCESS and goes to the error handler.
\<close>

definition processNextItem_settled :: "settlement \<Rightarrow> wq \<Rightarrow> wq" where
  "processNextItem_settled pr s =
     (case pr of
        Fulfilled itemResult \<Rightarrow>
          (let s1 = finish (onItemProcessed itemResult) s
           in if itemResult = JBool False
              then finish (halt (JHaltData PROCESSRETVAL JUndefined JUndefined)) s1
              else s1)
      | Rejected err \<Rightarrow> finish (onError (tag_error PROCESS err)) s)"

text \<open>
  \<open>_processNextItemWrapper\<close>, the handler that runs once the item is done: the three
  conditions are read one after the other, each after the callback of the one before it
  has been called, and before any of the promises of these callbacks is looked at.
\<close>

definition processNextItemWrapper_done :: "item \<Rightarrow> wq \<Rightarrow> wq" where
  "processNextItemWrapper_done it s =
     (let s0 = s\<lparr>inProgressCount := inProgressCount s - 1, trace := trace s @ [Completed it]\<rparr>
      in case (if inProgressCount s0 = 0 \<and> getQueueSize s0 = 0 then onNoWork s0
               else (s0, Settled)) of
           (s1, p1) \<Rightarrow>
             (case (if inProgressCount s1 = 0 \<and> halted s1 then onAfterHaltCompleted s1
                    else (s1, Settled)) of
                (s2, p2) \<Rightarrow>
                  (case (if inProgressCount s2 = 0 \<and> paused s2 then onAfterPauseCompleted s2
                         else (s2, Settled)) of
                     (s3, p3) \<Rightarrow> await_all [p1, p2, p3] s3)))"

text \<open>
  \<open>_processNextItem\<close>, the handler on the promise of \<open>_retrieveNextPromise\<close>: with
  nothing to wait for the item is done; otherwise the handlers above are put on the
  promise of the launch.
\<close>

definition processNextItem_retrieved :: "item \<Rightarrow> settlement option \<times> wq \<Rightarrow> wq" where
  "processNextItem_retrieved it r =
     (case r of
        (None, s1) \<Rightarrow> processNextItemWrapper_done it s1
      | (Some pr, s1) \<Rightarrow> s1\<lparr>inflight := inflight s1 @ [(it, pr)]\<rparr>)"

text \<open>
  What \<open>_processNextItemWrapper\<close> and \<open>_processNextItem\<close> do before they return is
  the first part of \<open>_retrieveNextPromise\<close>.
\<close>

definition processNextItem :: "wq \<Rightarrow> wq" where
  "processNextItem s = retrieveNextPromise s"

definition processNextItemWrapper :: "wq \<Rightarrow> wq" where
  "processNextItemWrapper s = processNextItem s"

text \<open>
  \<open>_evaluateQueue\<close>: the three tests, then the next item is taken. The limit is compared
  with the counter as numbers.
\<close>

definition evaluateQueue :: "wq \<Rightarrow> wq" where
  "evaluateQueue s =
     (if halted s \<or> paused s then s
      else if concurrencyLimit s \<le> of_int (inProgressCount s) then s
      else if length (queue s) = 0 then s
      else processNextItemWrapper s)"

text \<open>
  The promises that the \<open>n\<close>-th waiting item waits for settle: after the queue-size
  callbacks the item goes on to \<open>beforeItemProcessed\<close>, after \<open>beforeItemProcessed\<close>
  it is launched or done.
\<close>

definition proceed :: "nat \<Rightarrow> wq \<Rightarrow> wq" where
  "proceed n s =
     (if n < length (retrieving s)
      then (case retrieving s ! n of
              (it, SizeChangeCalled ps) \<Rightarrow>
                (case retrieveNextPromise_sizeChanged ps s of
                   (s1, p) \<Rightarrow> s1\<lparr>retrieving := (retrieving s1)[n := (it, BeforeItemCalled p)]\<rparr>)
            | (it, BeforeItemCalled p) \<Rightarrow>
                processNextItem_retrieved it
                  (retrieveNextPromise_beforeItem it p
                     (s\<lparr>retrieving := take n (retrieving s) @ drop (Suc n) (retrieving s)\<rparr>)))
      else s)"

text \<open>
  A turn of \<open>_evaluateQueue\<close> followed at once by the two turns in which the promises
  of the item it took settle, as happens when no callback called for the item returns
  a promise that is still pending.
\<close>

definition admit :: "wq \<Rightarrow> wq" where
  "admit s = (let n = length (retrieving s) in proceed n (proceed n (evaluateQueue s)))"

text \<open>The promise of the \<open>n\<close>-th launched item that is still pending settles.\<close>

definition settle :: "nat \<Rightarrow> wq \<Rightarrow> wq" where
  "settle n s =
     (if n < length (inflight s)
      then (case inflight s ! n of
              (it, pr) \<Rightarrow>
                processNextItemWrapper_done it
                  (processNextItem_settled pr
                     (s\<lparr>inflight := take n (inflight s) @ drop (Suc n) (inflight s)\<rparr>)))
      else s)"

section \<open>The public operations\<close>

definition add :: "item \<Rightarrow> wq \<Rightarrow> jsval + wq" where
  "add it s =
     (if processor s = None \<and> \<not> is_function it
      then Inl (new_WorkQueueError
                  (JStr ''Only functions may be added to the queue when no processor has been defined'')
                  (Some BADREQUEST))
      else Inr (finish_all onQueueSizeChange
                  (s\<lparr>queue := queue s @ [it], trace := trace s @ [Enqueued it]\<rparr>)))"

definition addAll :: "item list \<Rightarrow> wq \<Rightarrow> wq" where
  "addAll items s =
     finish_all onQueueSizeChange
       (s\<lparr>queue := queue s @ items, trace := trace s @ map Enqueued items\<rparr>)"

definition clear :: "wq \<Rightarrow> wq" where
  "clear s =
     finish_all onQueueSizeChange (s\<lparr>queue := [], trace := trace s @ [Cleared (queue s)]\<rparr>)"

definition pause :: "wq \<Rightarrow> wq" where
  "pause s = finish onPaused (s\<lparr>paused := True\<rparr>)"

definition resume :: "wq \<Rightarrow> wq" where
  "resume s = (if \<not> paused s then s else finish onResumed (s\<lparr>paused := False\<rparr>))"

datatype callback_arg = CbValue jsval | CbFunction callback

definition event_of :: "string \<Rightarrow> event option" where
  "event_of trigger =
     (if trigger = ''error'' then Some EvError
      else if trigger = ''halted'' then Some EvHalted
      else if trigger = ''queueSizeChange'' then Some EvQueueSizeChange
      else if trigger = ''queueEmpty'' then Some EvQueueEmpty
      else if trigger = ''noWork'' then Some EvNoWork
      else if trigger = ''itemProcessed'' then Some EvItemProcessed
      else if trigger = ''beforeItemProcessed'' then Some EvBeforeItemProcessed
      else if trigger = ''paused'' then Some EvPaused
      else if trigger = ''resumed'' then Some EvResumed
      else if trigger = ''afterHaltCompleted'' then Some EvAfterHaltCompleted
      else if trigger = ''afterPauseCompleted'' then Some EvAfterPauseCompleted
      else None)"

definition on :: "string \<Rightarrow> callback_arg \<Rightarrow> wq \<Rightarrow> jsval + wq" where
  "on trigger callback s =
     (case callback of
        CbValue v \<Rightarrow>
          (if v = JUndefined \<or> v = JNull
           then Inl (new_WorkQueueError (JStr ''Invalid callback specified'') (Some BADREQUEST))
           else Inl (new_WorkQueueError (JStr ''Callback must be a function'') (Some BADREQUEST)))
      | CbFunction f \<Rightarrow>
          (case event_of trigger of
             None \<Rightarrow> Inl (new_WorkQueueError (JStr ''Invalid trigger specified'') (Some BADREQUEST))
           | Some ev \<Rightarrow> Inr (s\<lparr>callbacks := (callbacks s)(ev \<mapsto> f)\<rparr>)))"

section \<open>Construction\<close>

text \<open>
  The options as the constructor's checks see them. \<open>opt_concurrencyLimit\<close> is \<open>None\<close> for
  \<open>undefined\<close> or \<open>null\<close>, and otherwise the number the given value converts to in
  \<open>isNaN\<close> and in a comparison: \<open>NaN\<close> for a value that is not numeric, and any
  finite number otherwise, whole or not. The processor is a function or some other value.
  The checks are those of the source, in its order; none of them asks for a whole number.
\<close>

datatype number = NaN | Num rat

datatype processor_arg = ProcValue jsval | ProcFunction "jsval \<Rightarrow> outcome"

record options =
  opt_concurrencyLimit :: "number option"
  opt_processor :: processor_arg

definition DEFAULT_CONCURRENCY_LIMIT :: rat where
  "DEFAULT_CONCURRENCY_LIMIT = 1"

definition validateOptions :: "options option \<Rightarrow> jsval + rat \<times> (jsval \<Rightarrow> outcome) option" where
  "validateOptions given =
     (let opts = (case given of
                    None \<Rightarrow> \<lparr>opt_concurrencyLimit = None, opt_processor = ProcValue JUndefined\<rparr>
                  | Some x \<Rightarrow> x);
          limit = (case opt_concurrencyLimit opts of
                     None \<Rightarrow> Num DEFAULT_CONCURRENCY_LIMIT
                   | Some n \<Rightarrow> n)
      in case limit of
           NaN \<Rightarrow>
             Inl (new_WorkQueueError (JStr ''Invalid concurrency limit: must be numeric'')
                    (Some BADREQUEST))
         | Num k \<Rightarrow>
             if 1 > k
             then Inl (new_WorkQueueError (JStr ''Invalid concurrency limit: must be at least 1'')
                         (Some BADREQUEST))
             else (case opt_processor opts of
                     ProcFunction f \<Rightarrow> Inr (k, Some f)
                   | ProcValue v \<Rightarrow>
                       if v \<noteq> JUndefined \<and> v \<noteq> JNull
                       then Inl (new_WorkQueueError (JStr ''Invalid processor: must be a function'')
                                   (Some BADREQUEST))
                       else Inr (k, None)))"

definition new_WorkQueue :: "options option \<Rightarrow> jsval + wq" where
  "new_WorkQueue given =
     (case validateOptions given of
        Inl err \<Rightarrow> Inl err
      | Inr (k, p) \<Rightarrow>
          Inr \<lparr>concurrencyLimit = k, processor = p, queue = [], inProgressCount = 0,
               callbacks = (\<lambda>ev. None), halted = False, paused = False,
               retrieving = [], inflight = [], trace = []\<rparr>)"

section \<open>Runs of the queue\<close>

text \<open>
  A run is a sequence of turns of the event loop: a call of the public interface, one
  of the calls of \<open>_evaluateQueue\<close> that \<open>add\<close>, \<open>addAll\<close>, \<open>resume\<close> and the queue itself
  schedule, the settling of the promises a waiting item waits for, or the settling of
  the promise of a launched item. The source schedules \<open>_evaluateQueue\<close> after every
  \<open>add\<close>, \<open>addAll\<close> and \<open>resume\<close>, after every item it takes and after every
  completion; a run may hold these calls, and the settling of promises, at any place and
  in any number, which covers every order in which the event loop can run them (and
  some it cannot: a callback that returns no promise is done with before the next call
  of \<open>_evaluateQueue\<close>). A call that throws leaves the queue as it was. What a callback
  asks of the queue is a call of the interface in the run.
\<close>

datatype action =
    Add item
  | AddAll "item list"
  | Evaluate
  | Proceed nat
  | Settle nat
  | Pause
  | Resume
  | Clear
  | On string callback_arg

fun exec :: "action \<Rightarrow> wq \<Rightarrow> wq" where
  "exec (Add it) s = (case add it s of Inl err \<Rightarrow> s | Inr s1 \<Rightarrow> s1)"
| "exec (AddAll items) s = addAll items s"
| "exec Evaluate s = evaluateQueue s"
| "exec (Proceed n) s = proceed n s"
| "exec (Settle n) s = settle n s"
| "exec Pause s = pause s"
| "exec Resume s = resume s"
| "exec Clear s = clear s"
| "exec (On trigger cb) s = (case on trigger cb s of Inl err \<Rightarrow> s | Inr s1 \<Rightarrow> s1)"

definition run :: "action list \<Rightarrow> wq \<Rightarrow> wq" where
  "run acts s = fold exec acts s"

section \<open>Example queues\<close>

text \<open>
  A queue as the constructor leaves it, tasks whose promise is fulfilled with
  \<open>undefined\<close>, and the options that only set the limit.
\<close>

definition fresh_queue :: "rat \<Rightarrow> (jsval \<Rightarrow> outcome) option \<Rightarrow> wq" where
  "fresh_queue k p =
     \<lparr>concurrencyLimit = k, processor = p, queue = [], inProgressCount = 0,
      callbacks = (\<lambda>ev. None), halted = False, paused = False, retrieving = [], inflight = [],
      trace = []\<rparr>"

definition task :: "nat \<Rightarrow> item" where
  "task l = Task l (Resolves JUndefined)"

definition limit_only :: "rat \<Rightarrow> options" where
  "limit_only k = \<lparr>opt_concurrencyLimit = Some (Num k), opt_processor = ProcValue JUndefined\<rparr>"

text \<open>
  The turns that take the next item when nothing else is waiting: \<open>_evaluateQueue\<close>,
  then the settling of what the item waits for.
\<close>

definition take_item :: "action list" where
  "take_item = [Evaluate, Proceed 0, Proceed 0]"

text \<open>
  A queue whose halted callback and error callback both throw whenever they are called.
\<close>

definition double_fault :: wq where
  "double_fault =
     run [On ''halted'' (CbFunction (\<lambda>n a. Throws (JStr ''error from halted callback''))),
          On ''error'' (CbFunction (\<lambda>n a. Throws (JStr ''error from error callback'')))]
       (fresh_queue 1 None)"

text \<open>
  Runs used as examples. In \<open>tagged_failure_run\<close> the \<open>noWork\<close> callback throws an
  error that already carries the source PROCESS. In \<open>requeue_run\<close> an item is added after
  the queue has drained once. In \<open>skip_second_run\<close> three tasks are added and
  \<open>beforeItemProcessed\<close> answers SKIP on its second call only; \<open>skip_last_run\<close> is the
  same with two tasks. In \<open>false_result_run\<close> the only task is fulfilled with \<open>false\<close>
  and \<open>itemProcessed\<close> returns the result it is given. \<open>two_in_flight_run\<close> leaves two
  tasks in flight, the first of which will be fulfilled with \<open>false\<close>, and a third in the
  queue.
\<close>

definition tagged_failure_run :: "action list" where
  "tagged_failure_run =
     [On ''noWork'' (CbFunction (\<lambda>n a. Throws (JError (JStr ''boom'') (Some PROCESS)))),
      On ''error'' (CbFunction (\<lambda>n a. Returns JUndefined)),
      Add (task 1)] @ take_item @ [Settle 0]"

definition requeue_run :: "action list" where
  "requeue_run =
     [On ''noWork'' (CbFunction (\<lambda>n a. Returns (JBool True))),
      Add (task 1)] @ take_item @ [Settle 0, Add (task 2)] @ take_item"

definition skip_second :: callback where
  "skip_second = (\<lambda>n a. if n = 1 then Returns BEFORE_SKIP else Returns (JBool True))"

definition skip_second_run :: "action list" where
  "skip_second_run =
     [On ''beforeItemProcessed'' (CbFunction skip_second),
      On ''noWork'' (CbFunction (\<lambda>n a. Returns JUndefined)),
      Add (task 1), Add (task 2), Add (task 3)]
     @ take_item @ [Settle 0] @ take_item @ take_item @ [Settle 0]"

definition skip_last_run :: "action list" where
  "skip_last_run =
     [On ''beforeItemProcessed'' (CbFunction skip_second),
      On ''noWork'' (CbFunction (\<lambda>n a. Returns JUndefined)),
      Add (task 1), Add (task 2)]
     @ take_item @ [Settle 0] @ take_item"

definition false_task :: "nat \<Rightarrow> item" where
  "false_task l = Task l (Resolves (JBool False))"

definition false_result_run :: "action list" where
  "false_result_run =
     [On ''itemProcessed'' (CbFunction (\<lambda>n v. Returns v)),
      On ''halted'' (CbFunction (\<lambda>n a. Returns JUndefined)),
      Add (false_task 1)] @ take_item @ [Settle 0]"

definition two_in_flight_run :: "action list" where
  "two_in_flight_run =
     [On ''halted'' (CbFunction (\<lambda>n a. Returns JUndefined)),
      On ''paused'' (CbFunction (\<lambda>n a. Returns JUndefined)),
      On ''afterHaltCompleted'' (CbFunction (\<lambda>n a. Returns JUndefined)),
      On ''afterPauseCompleted'' (CbFunction (\<lambda>n a. Returns JUndefined)),
      AddAll [false_task 1, task 2, task 3]] @ take_item @ take_item"

text \<open>
  In \<open>slow_first_hook_run\<close> the limit is meant to be 2 and \<open>beforeItemProcessed\<close>
  returns a promise on every call. The first item is taken and its callback called;
  the second item is taken and its callback called; the promise of the second call
  settles before that of the first. \<open>fractional_limit_run\<close> adds two tasks and takes
  both.
\<close>

definition slow_first_hook_run :: "action list" where
  "slow_first_hook_run =
     [On ''beforeItemProcessed'' (CbFunction (\<lambda>n a. Resolves JUndefined)),
      AddAll [task 1, task 2],
      Evaluate, Proceed 0, Evaluate, Proceed 1, Proceed 1, Proceed 0]"

definition fractional_limit_run :: "action list" where
  "fractional_limit_run = [AddAll [task 1, task 2]] @ take_item @ take_item"

section \<open>Reading the trace\<close>

text \<open>
  The items that entered the queue, that left it (taken for processing, or dropped by
  \<open>clear\<close>), that were taken for processing, whose task or processor was called, and
  that are done, each in the order of the trace.
\<close>

fun enqueued_of :: "obs \<Rightarrow> item list" where
  "enqueued_of (Enqueued it) = [it]"
| "enqueued_of other = []"

fun removed_of :: "obs \<Rightarrow> item list" where
  "removed_of (Dequeued it) = [it]"
| "removed_of (Cleared its) = its"
| "removed_of other = []"

fun dequeued_of :: "obs \<Rightarrow> item list" where
  "dequeued_of (Dequeued it) = [it]"
| "dequeued_of other = []"

fun launched_of :: "obs \<Rightarrow> item list" where
  "launched_of (Launched it) = [it]"
| "launched_of other = []"

fun completed_of :: "obs \<Rightarrow> item list" where
  "completed_of (Completed it) = [it]"
| "completed_of other = []"

definition enqueued :: "obs list \<Rightarrow> item list" where
  "enqueued tr = concat (map enqueued_of tr)"

definition removed :: "obs list \<Rightarrow> item list" where
  "removed tr = concat (map removed_of tr)"

definition dequeued :: "obs list \<Rightarrow> item list" where
  "dequeued tr = concat (map dequeued_of tr)"

definition launched :: "obs list \<Rightarrow> item list" where
  "launched tr = concat (map launched_of tr)"

definition completed :: "obs list \<Rightarrow> item list" where
  "completed tr = concat (map completed_of tr)"

text \<open>
  Two relations for the proofs. \<open>moves L s t\<close>: \<open>t\<close> is \<open>s\<close> with a longer trace and
  possibly the halted flag raised, \<open>L\<close> lists what was added to the trace apart from
  calls of callbacks, and the halted callback was called exactly when the flag went up
  and a callback is registered. \<open>hooked\<close> is the case where only callbacks were called.
\<close>

fun is_call :: "obs \<Rightarrow> bool" where
  "is_call (Called ev a) = True"
| "is_call other = False"

definition others :: "obs list \<Rightarrow> obs list" where
  "others tr = filter (\<lambda>e. \<not> is_call e) tr"

definition moves :: "obs list \<Rightarrow> wq \<Rightarrow> wq \<Rightarrow> bool" where
  "moves L s t \<longleftrightarrow>
     (\<exists>h tr. t = s\<lparr>halted := h, trace := trace s @ tr\<rparr> \<and> (halted s \<longrightarrow> h) \<and> others tr = L
        \<and> calls_of EvHalted tr
            = (if \<not> halted s \<and> h \<and> callbacks s EvHalted \<noteq> None then 1 else 0))"

definition hooked :: "wq \<Rightarrow> wq \<Rightarrow> bool" where
  "hooked s t \<longleftrightarrow> moves [] s t"

text \<open>
  A finer relation for counting calls. \<open>counted s t\<close>: \<open>t\<close> is \<open>s\<close> after calls of the
  error and halted callbacks only, and the halted callback was called exactly when the
  halted flag went up and a callback is registered. \<open>fired ev a s\<close> is the entry that
  calling the hook \<open>ev\<close> leaves in the trace.
\<close>

definition fired :: "event \<Rightarrow> jsval \<Rightarrow> wq \<Rightarrow> obs list" where
  "fired ev a s = (case callbacks s ev of None \<Rightarrow> [] | Some cb \<Rightarrow> [Called ev a])"

definition counted :: "wq \<Rightarrow> wq \<Rightarrow> bool" where
  "counted s t \<longleftrightarrow>
     (\<exists>h tr. t = s\<lparr>halted := h, trace := trace s @ tr\<rparr> \<and> (halted s \<longrightarrow> h)
        \<and> list_all (\<lambda>x. is_call_of EvError x \<or> is_call_of EvHalted x) tr
        \<and> calls_of EvHalted tr
            = (if \<not> halted s \<and> h \<and> callbacks s EvHalted \<noteq> None then 1 else 0))"

text \<open>The value a callback answers with, when it answers.\<close>

fun answer :: "outcome \<Rightarrow> jsval" where
  "answer (Returns v) = v"
| "answer (Resolves v) = v"
| "answer other = JUndefined"

text \<open>What \<open>beforeItemProcessed\<close> answers for the next item taken from the queue.\<close>

definition before_answer :: "wq \<Rightarrow> jsval" where
  "before_answer s =
     (case callbacks s EvBeforeItemProcessed of
        None \<Rightarrow> JUndefined
      | Some cb \<Rightarrow> answer (cb (calls_of EvBeforeItemProcessed (trace s)) JUndefined))"

text \<open>
  Whether an answer of \<open>beforeItemProcessed\<close> withholds the item, and what the turn in
  which a waiting item is let go adds to the launches: nothing when the item is withheld
  or when it is not a function and there is no processor.
\<close>

definition withheld :: "jsval \<Rightarrow> bool" where
  "withheld r \<longleftrightarrow> r = BEFORE_SKIP \<or> r = BEFORE_HALT \<or> r = JBool False"

definition launch_log :: "item \<Rightarrow> jsval \<Rightarrow> wq \<Rightarrow> obs list" where
  "launch_log it r s =
     (if withheld r \<or> (\<not> is_function it \<and> processor s = None) then [] else [Launched it])"

text \<open>
  Three invariants of a run. \<open>count_ok\<close>: the counter is the number of items taken from
  the queue that are waiting or in flight, and it stays below the limit plus one (an
  item is taken only while the counter is below the limit). \<open>fifo_ok\<close>: the items that
  entered are those that left followed by those still queued; with a limit of one, the
  dequeued items are the finished ones followed by the one waiting or in flight.
  \<open>in_order\<close>: the dequeued items end with the waiting ones, and the launches so far
  follow the order in which the others were dequeued.
\<close>

definition count_ok :: "wq \<Rightarrow> bool" where
  "count_ok s \<longleftrightarrow>
     inProgressCount s = int (length (retrieving s)) + int (length (inflight s))
     \<and> of_int (inProgressCount s) < concurrencyLimit s + 1"

definition fifo_ok :: "wq \<Rightarrow> bool" where
  "fifo_ok s \<longleftrightarrow>
     enqueued (trace s) = removed (trace s) @ queue s
     \<and> (concurrencyLimit s = 1 \<longrightarrow>
           dequeued (trace s)
             = completed (trace s) @ map fst (retrieving s) @ map fst (inflight s))"

definition in_order :: "wq \<Rightarrow> bool" where
  "in_order s \<longleftrightarrow>
     (\<exists>D. dequeued (trace s) = D @ map fst (retrieving s) \<and> subseq (launched (trace s)) D)"

text \<open>
  In no state that the run passes through do two items wait for their callbacks at the
  same time.
\<close>

fun one_at_a_time :: "action list \<Rightarrow> wq \<Rightarrow> bool" where
  "one_at_a_time [] s = (length (retrieving s) \<le> 1)"
| "one_at_a_time (a # acts) s = (length (retrieving s) \<le> 1 \<and> one_at_a_time acts (exec a s))"


section \<open>What the callbacks can and cannot change\<close>

lemma others_append [simp]: "others (xs @ ys) = others xs @ others ys"
  by (simp add: others_def)

lemma others_Nil [simp]: "others [] = []"
  by (simp add: others_def)

lemma others_Called [simp]: "others (Called ev a # tr) = others tr"
  by (simp add: others_def)

lemma calls_of_append [simp]: "calls_of e (xs @ ys) = calls_of e xs + calls_of e ys"
  by (simp add: calls_of_def)

lemma calls_of_Nil [simp]: "calls_of e [] = 0"
  by (simp add: calls_of_def)

lemma calls_of_Cons [simp]: "calls_of e (x # xs) = (if is_call_of e x then 1 else 0) + calls_of e xs"
  by (simp add: calls_of_def)

lemma calls_of_Enqueued [simp]: "calls_of e (map Enqueued items) = 0"
  by (induction items) simp_all

lemma moves_trans:
  assumes "moves L s t" and "moves M t u"
  shows "moves (L @ M) s u"
proof -
  from assms obtain h tr h' tr' where
    t: "t = s\<lparr>halted := h, trace := trace s @ tr\<rparr>" "halted s \<longrightarrow> h" "others tr = L"
       "calls_of EvHalted tr = (if \<not> halted s \<and> h \<and> callbacks s EvHalted \<noteq> None then 1 else 0)" and
    u: "u = t\<lparr>halted := h', trace := trace t @ tr'\<rparr>" "halted t \<longrightarrow> h'" "others tr' = M"
       "calls_of EvHalted tr' = (if \<not> halted t \<and> h' \<and> callbacks t EvHalted \<noteq> None then 1 else 0)"
    unfolding moves_def by blast
  have 1: "u = s\<lparr>halted := h', trace := trace s @ (tr @ tr')\<rparr>" using t(1) u(1) by simp
  have 2: "halted s \<longrightarrow> h'" using t u by simp
  have 3: "others (tr @ tr') = L @ M" using t u by simp
  have 4: "calls_of EvHalted (tr @ tr')
            = (if \<not> halted s \<and> h' \<and> callbacks s EvHalted \<noteq> None then 1 else 0)"
    using t u by auto
  show ?thesis unfolding moves_def using 1 2 3 4 by blast
qed

lemma moves_log:
  "others tr = L \<Longrightarrow> calls_of EvHalted tr = 0 \<Longrightarrow> moves L s (s\<lparr>trace := trace s @ tr\<rparr>)"
  unfolding moves_def by (intro exI [of _ "halted s"] exI [of _ tr]) simp

lemma hooked_refl [simp]: "hooked s s"
  unfolding hooked_def using moves_log [of "[]" "[]" s] by simp

lemma hooked_trans: "hooked s t \<Longrightarrow> hooked t u \<Longrightarrow> hooked s u"
  unfolding hooked_def using moves_trans [of "[]" s t "[]" u] by simp

lemma moves_then_hooked: "moves L s t \<Longrightarrow> hooked t u \<Longrightarrow> moves L s u"
  unfolding hooked_def using moves_trans [of L s t "[]" u] by simp

lemma moves_fields:
  assumes "moves L s t"
  shows "queue t = queue s" "inProgressCount t = inProgressCount s"
    "concurrencyLimit t = concurrencyLimit s" "processor t = processor s"
    "callbacks t = callbacks s" "paused t = paused s" "inflight t = inflight s"
    "halted s \<Longrightarrow> halted t" "others (trace t) = others (trace s) @ L"
    "calls_of EvHalted (trace t) = calls_of EvHalted (trace s)
       + (if \<not> halted s \<and> halted t \<and> callbacks s EvHalted \<noteq> None then 1 else 0)"
    "retrieving t = retrieving s"
  using assms unfolding moves_def by auto

lemmas hooked_fields = moves_fields [of "[]", folded hooked_def, simplified]

section \<open>Counting the calls of callbacks\<close>

lemma counted_refl [simp]: "counted s s"
  unfolding counted_def by (intro exI [of _ "halted s"] exI [of _ "[]"]) simp

lemma counted_trans:
  assumes "counted s t" and "counted t u"
  shows "counted s u"
proof -
  from assms obtain h tr h' tr' where
    t: "t = s\<lparr>halted := h, trace := trace s @ tr\<rparr>" "halted s \<longrightarrow> h"
       "list_all (\<lambda>x. is_call_of EvError x \<or> is_call_of EvHalted x) tr"
       "calls_of EvHalted tr = (if \<not> halted s \<and> h \<and> callbacks s EvHalted \<noteq> None then 1 else 0)" and
    u: "u = t\<lparr>halted := h', trace := trace t @ tr'\<rparr>" "halted t \<longrightarrow> h'"
       "list_all (\<lambda>x. is_call_of EvError x \<or> is_call_of EvHalted x) tr'"
       "calls_of EvHalted tr' = (if \<not> halted t \<and> h' \<and> callbacks t EvHalted \<noteq> None then 1 else 0)"
    unfolding counted_def by blast
  have 1: "u = s\<lparr>halted := h', trace := trace s @ (tr @ tr')\<rparr>" using t(1) u(1) by simp
  have 2: "halted s \<longrightarrow> h'" using t u by simp
  have 3: "list_all (\<lambda>x. is_call_of EvError x \<or> is_call_of EvHalted x) (tr @ tr')"
    using t u by simp
  have 4: "calls_of EvHalted (tr @ tr')
            = (if \<not> halted s \<and> h' \<and> callbacks s EvHalted \<noteq> None then 1 else 0)"
    using t u by auto
  show ?thesis unfolding counted_def using 1 2 3 4 by blast
qed

lemma counted_facts:
  assumes "counted s t"
  shows "queue t = queue s" "inProgressCount t = inProgressCount s"
    "concurrencyLimit t = concurrencyLimit s" "processor t = processor s"
    "callbacks t = callbacks s" "paused t = paused s" "inflight t = inflight s"
    "halted s \<Longrightarrow> halted t"
    "\<exists>tr. trace t = trace s @ tr"
    "e \<noteq> EvError \<Longrightarrow> e \<noteq> EvHalted \<Longrightarrow> calls_of e (trace t) = calls_of e (trace s)"
    "calls_of EvHalted (trace t) = calls_of EvHalted (trace s)
       + (if \<not> halted s \<and> halted t \<and> callbacks s EvHalted \<noteq> None then 1 else 0)"
    "retrieving t = retrieving s"
proof -
  from assms obtain h tr where
    t: "t = s\<lparr>halted := h, trace := trace s @ tr\<rparr>" "halted s \<longrightarrow> h"
       "list_all (\<lambda>x. is_call_of EvError x \<or> is_call_of EvHalted x) tr"
       "calls_of EvHalted tr = (if \<not> halted s \<and> h \<and> callbacks s EvHalted \<noteq> None then 1 else 0)"
    unfolding counted_def by blast
  show "queue t = queue s" "inProgressCount t = inProgressCount s"
    "concurrencyLimit t = concurrencyLimit s" "processor t = processor s"
    "callbacks t = callbacks s" "paused t = paused s" "inflight t = inflight s"
    "halted s \<Longrightarrow> halted t" "\<exists>tr. trace t = trace s @ tr" "retrieving t = retrieving s"
    using t by auto
  have "e \<noteq> EvError \<Longrightarrow> e \<noteq> EvHalted \<Longrightarrow> calls_of e tr = 0"
    using t(3)
  proof (induction tr)
    case Nil
    then show ?case by simp
  next
    case (Cons x tr)
    then show ?case by (cases x) auto
  qed
  then show "e \<noteq> EvError \<Longrightarrow> e \<noteq> EvHalted \<Longrightarrow> calls_of e (trace t) = calls_of e (trace s)"
    using t(1) by simp
  show "calls_of EvHalted (trace t) = calls_of EvHalted (trace s)
       + (if \<not> halted s \<and> halted t \<and> callbacks s EvHalted \<noteq> None then 1 else 0)"
    using t by simp
qed

lemma halt_counted: "halt r s = (s1, p) \<Longrightarrow> counted s s1"
proof -
  assume a: "halt r s = (s1, p)"
  show ?thesis
  proof (cases "halted s")
    case True
    then show ?thesis using a by (simp add: halt_def)
  next
    case False
    show ?thesis
    proof (cases "callbacks s EvHalted")
      case None
      then have "s1 = s\<lparr>halted := True, trace := trace s @ []\<rparr>"
        using a False by (auto simp: halt_def onHalted_def)
      then show ?thesis
        unfolding counted_def using None False
        by (intro exI [of _ True] exI [of _ "[]"]) simp
    next
      case (Some cb)
      then have "s1 = s\<lparr>halted := True, trace := trace s @ [Called EvHalted r]\<rparr>"
        using a False
        by (auto simp: halt_def onHalted_def invoke_def split: outcome.splits)
      then show ?thesis
        unfolding counted_def using Some False
        by (intro exI [of _ True] exI [of _ "[Called EvHalted r]"]) simp
    qed
  qed
qed

lemma log_error_counted: "counted s (s\<lparr>trace := trace s @ [Called EvError e]\<rparr>)"
  unfolding counted_def
  by (intro exI [of _ "halted s"] exI [of _ "[Called EvError e]"]) simp

lemma onError_counted: "onError e s = (s1, p) \<Longrightarrow> counted s s1"
proof -
  assume a: "onError e s = (s1, p)"
  show ?thesis
  proof (cases "callbacks s EvError")
    case None
    then show ?thesis using a by (simp add: onError_def)
  next
    case (Some cb)
    let ?s' = "s\<lparr>trace := trace s @ [Called EvError e]\<rparr>"
    have c: "counted s ?s'" by (rule log_error_counted)
    show ?thesis
    proof (cases "cb (calls_of EvError (trace s)) e")
      case (Throws ex)
      then have "halt (JHaltData ERRORCALLBACKERROR ex (JStr ''error'')) ?s' = (s1, p)"
        using a Some by (simp add: onError_def invoke_def)
      from counted_trans [OF c halt_counted [OF this]] show ?thesis .
    qed (use a Some c in \<open>auto simp: onError_def invoke_def\<close>)
  qed
qed

lemma counted_case:
  assumes "\<And>s1 p. f = (s1, p) \<Longrightarrow> counted s s1"
    and "\<And>s1 p. (s1, p) = f \<Longrightarrow> counted s1 (await p s1)"
  shows "counted s (case f of (s1, p) \<Rightarrow> await p s1)"
proof (cases f)
  case (Pair s1 p)
  then show ?thesis using assms(1) [of s1 p] assms(2) [of s1 p] by (auto intro: counted_trans)
qed

lemma await_counted: "counted s (await p s)"
proof (induction p s rule: await.induct)
  case (1 s)
  then show ?case by simp
next
  case (2 err s)
  then show ?case
    by (auto intro!: counted_case elim: onError_counted)
next
  case (3 out s)
  then show ?case
    by (auto split: outcome.splits intro!: counted_case elim: halt_counted)
next
  case (4 ev out s)
  then show ?case
    by (auto split: outcome.splits intro!: counted_case elim: halt_counted onError_counted)
qed

lemma finish_halt_counted: "counted s (finish (halt r) s)"
  unfolding finish_def
  by (auto split: prod.splits intro: counted_trans [OF halt_counted await_counted])

lemma finish_onError_counted: "counted s (finish (onError e) s)"
  unfolding finish_def
  by (auto split: prod.splits intro: counted_trans [OF onError_counted await_counted])

lemma await_all_counted: "counted s (await_all ps s)"
  unfolding await_all_def
proof (induction ps arbitrary: s)
  case Nil
  then show ?case by simp
next
  case (Cons p ps)
  show ?case using counted_trans [OF await_counted [of s p] Cons [of "await p s"]] by simp
qed

lemma onError_resolved: "onError e s = (s1, p) \<Longrightarrow> resolved_value p = JUndefined"
  by (auto simp: onError_def halt_def onHalted_def invoke_def
           split: option.splits outcome.splits if_splits)

lemma callHandler_counted:
  assumes "callHandler ev a s = (s1, p)" and "ev \<noteq> EvError" and "ev \<noteq> EvHalted"
  shows "counted (s\<lparr>trace := trace s @ fired ev a s\<rparr>) s1"
    and "resolved_value p
          = (case callbacks s ev of None \<Rightarrow> JUndefined
             | Some cb \<Rightarrow> answer (cb (calls_of ev (trace s)) a))"
proof -
  show "counted (s\<lparr>trace := trace s @ fired ev a s\<rparr>) s1"
  proof (cases "callbacks s ev")
    case None
    then show ?thesis using assms(1) by (simp add: callHandler_def fired_def)
  next
    case (Some cb)
    let ?s' = "s\<lparr>trace := trace s @ [Called ev a]\<rparr>"
    show ?thesis
    proof (cases "cb (calls_of ev (trace s)) a")
      case (Throws ex)
      then have "onError (tag_error CALLBACK ex) ?s' = (s1, p)"
        using assms(1) Some by (simp add: callHandler_def invoke_def)
      from onError_counted [OF this] show ?thesis using Some by (simp add: fired_def)
    qed (use assms(1) Some in \<open>auto simp: callHandler_def invoke_def fired_def\<close>)
  qed
  show "resolved_value p
          = (case callbacks s ev of None \<Rightarrow> JUndefined
             | Some cb \<Rightarrow> answer (cb (calls_of ev (trace s)) a))"
  proof (cases "callbacks s ev")
    case None
    then show ?thesis using assms(1) by (auto simp: callHandler_def)
  next
    case (Some cb)
    show ?thesis
    proof (cases "cb (calls_of ev (trace s)) a")
      case (Throws ex)
      then have "onError (tag_error CALLBACK ex) (s\<lparr>trace := trace s @ [Called ev a]\<rparr>) = (s1, p)"
        using assms(1) Some by (simp add: callHandler_def invoke_def)
      from onError_resolved [OF this] show ?thesis using Some Throws by simp
    qed (use assms(1) Some in \<open>auto simp: callHandler_def invoke_def\<close>)
  qed
qed

lemma finish_callHandler_counted:
  assumes "ev \<noteq> EvError" and "ev \<noteq> EvHalted"
  shows "counted (s\<lparr>trace := trace s @ fired ev a s\<rparr>) (finish (callHandler ev a) s)"
proof -
  obtain s1 p where e: "callHandler ev a s = (s1, p)" by (cases "callHandler ev a s")
  from counted_trans [OF callHandler_counted(1) [OF e assms] await_counted [of s1 p]]
  show ?thesis using e by (simp add: finish_def)
qed


lemma counted_hooked:
  assumes "counted s t"
  shows "hooked s t"
proof -
  from assms obtain h tr where
    t: "t = s\<lparr>halted := h, trace := trace s @ tr\<rparr>" "halted s \<longrightarrow> h"
       "list_all (\<lambda>x. is_call_of EvError x \<or> is_call_of EvHalted x) tr"
       "calls_of EvHalted tr = (if \<not> halted s \<and> h \<and> callbacks s EvHalted \<noteq> None then 1 else 0)"
    unfolding counted_def by blast
  have "others tr = []" using t(3)
  proof (induction tr)
    case Nil
    then show ?case by simp
  next
    case (Cons x tr)
    then show ?case by (cases x) auto
  qed
  then show ?thesis unfolding hooked_def moves_def using t by blast
qed

lemma fired_hooked:
  "ev \<noteq> EvHalted \<Longrightarrow> hooked s (s\<lparr>trace := trace s @ fired ev a s\<rparr>)"
  unfolding hooked_def
  by (rule moves_log) (auto simp: fired_def split: option.splits)

lemma halt_hooked: "halt r s = (s1, p) \<Longrightarrow> hooked s s1"
  by (rule counted_hooked [OF halt_counted])

lemma onError_hooked: "onError e s = (s1, p) \<Longrightarrow> hooked s s1"
  by (rule counted_hooked [OF onError_counted])

lemma await_hooked: "hooked s (await p s)"
  by (rule counted_hooked [OF await_counted])

lemma await_all_hooked: "hooked s (await_all ps s)"
  by (rule counted_hooked [OF await_all_counted])

lemma finish_onError_hooked: "hooked s (finish (onError e) s)"
  by (rule counted_hooked [OF finish_onError_counted])

lemma finish_halt_hooked: "hooked s (finish (halt r) s)"
  by (rule counted_hooked [OF finish_halt_counted])

lemma callHandler_hooked:
  assumes "callHandler ev a s = (s1, p)" and "ev \<noteq> EvError" and "ev \<noteq> EvHalted"
  shows "hooked s s1"
  using hooked_trans [OF fired_hooked [OF assms(3)] counted_hooked [OF callHandler_counted(1) [OF assms]]] .

lemma finish_callHandler_hooked:
  assumes "ev \<noteq> EvError" and "ev \<noteq> EvHalted"
  shows "hooked s (finish (callHandler ev a) s)"
  using hooked_trans [OF fired_hooked [OF assms(2)] counted_hooked [OF finish_callHandler_counted [OF assms]]] .

lemma onQueueSizeChange_hooked: "onQueueSizeChange s = (s1, ps) \<Longrightarrow> hooked s s1"
  unfolding onQueueSizeChange_def Let_def
  by (auto split: prod.splits if_splits dest!: callHandler_hooked intro: hooked_trans)

lemma finish_all_onQueueSizeChange_hooked: "hooked s (finish_all onQueueSizeChange s)"
  unfolding finish_all_def
  by (auto split: prod.splits dest!: onQueueSizeChange_hooked intro: hooked_trans await_all_hooked)

section \<open>The operations, step by step\<close>

lemma others_Enqueued [simp]: "others (map Enqueued items) = map Enqueued items"
  by (induction items) (auto simp: others_def)

lemma add_moves:
  assumes "add it s = Inr s'"
  shows "moves [Enqueued it] (s\<lparr>queue := queue s @ [it]\<rparr>) s'"
proof -
  let ?s1 = "s\<lparr>queue := queue s @ [it], trace := trace s @ [Enqueued it]\<rparr>"
  have s': "s' = finish_all onQueueSizeChange ?s1"
    using assms by (auto simp: add_def split: if_splits)
  have "moves [Enqueued it] (s\<lparr>queue := queue s @ [it]\<rparr>) ?s1"
    using moves_log [of "[Enqueued it]" "[Enqueued it]" "s\<lparr>queue := queue s @ [it]\<rparr>"]
    by (simp add: others_def)
  then show ?thesis
    unfolding s' by (rule moves_then_hooked) (rule finish_all_onQueueSizeChange_hooked)
qed

lemma addAll_moves: "moves (map Enqueued items) (s\<lparr>queue := queue s @ items\<rparr>) (addAll items s)"
proof -
  let ?s1 = "s\<lparr>queue := queue s @ items, trace := trace s @ map Enqueued items\<rparr>"
  have "moves (map Enqueued items) (s\<lparr>queue := queue s @ items\<rparr>) ?s1"
    using moves_log [of "map Enqueued items" "map Enqueued items" "s\<lparr>queue := queue s @ items\<rparr>"]
    by simp
  then show ?thesis
    unfolding addAll_def by (rule moves_then_hooked) (rule finish_all_onQueueSizeChange_hooked)
qed

lemma clear_moves: "moves [Cleared (queue s)] (s\<lparr>queue := []\<rparr>) (clear s)"
proof -
  let ?s1 = "s\<lparr>queue := [], trace := trace s @ [Cleared (queue s)]\<rparr>"
  have "moves [Cleared (queue s)] (s\<lparr>queue := []\<rparr>) ?s1"
    using moves_log [of "[Cleared (queue s)]" "[Cleared (queue s)]" "s\<lparr>queue := []\<rparr>"]
    by (simp add: others_def)
  then show ?thesis
    unfolding clear_def by (rule moves_then_hooked) (rule finish_all_onQueueSizeChange_hooked)
qed

lemma pause_hooked: "hooked (s\<lparr>paused := True\<rparr>) (pause s)"
  unfolding pause_def onPaused_def by (rule finish_callHandler_hooked) simp_all

lemma resume_hooked: "paused s \<Longrightarrow> hooked (s\<lparr>paused := False\<rparr>) (resume s)"
  unfolding resume_def onResumed_def by (simp add: finish_callHandler_hooked)

lemma resume_not_paused: "\<not> paused s \<Longrightarrow> resume s = s"
  by (simp add: resume_def)

lemma processNextItem_settled_hooked: "hooked s (processNextItem_settled pr s)"
  unfolding processNextItem_settled_def Let_def onItemProcessed_def
  by (auto split: settlement.splits
           intro: finish_onError_hooked finish_callHandler_hooked
                  hooked_trans [OF finish_callHandler_hooked finish_halt_hooked])

lemma wrapper_done_moves:
  "moves [Completed it] (s\<lparr>inProgressCount := inProgressCount s - 1\<rparr>)
     (processNextItemWrapper_done it s)"
proof -
  let ?b = "s\<lparr>inProgressCount := inProgressCount s - 1\<rparr>"
  let ?s0 = "s\<lparr>inProgressCount := inProgressCount s - 1, trace := trace s @ [Completed it]\<rparr>"
  obtain s1 p1 where e1:
    "(if inProgressCount ?s0 = 0 \<and> getQueueSize ?s0 = 0 then onNoWork ?s0 else (?s0, Settled)) = (s1, p1)"
    by fastforce
  obtain s2 p2 where e2:
    "(if inProgressCount s1 = 0 \<and> halted s1 then onAfterHaltCompleted s1 else (s1, Settled)) = (s2, p2)"
    by fastforce
  obtain s3 p3 where e3:
    "(if inProgressCount s2 = 0 \<and> paused s2 then onAfterPauseCompleted s2 else (s2, Settled)) = (s3, p3)"
    by fastforce
  have r: "processNextItemWrapper_done it s = await_all [p1, p2, p3] s3"
    unfolding processNextItemWrapper_done_def Let_def using e1 e2 e3 by simp
  have h1: "hooked ?s0 s1"
    using e1 by (auto simp: onNoWork_def split: if_splits dest: callHandler_hooked)
  have h2: "hooked s1 s2"
    using e2 by (auto simp: onAfterHaltCompleted_def split: if_splits dest: callHandler_hooked)
  have h3: "hooked s2 s3"
    using e3 by (auto simp: onAfterPauseCompleted_def split: if_splits dest: callHandler_hooked)
  have "moves [Completed it] ?b ?s0"
    using moves_log [of "[Completed it]" "[Completed it]" ?b] by (simp add: others_def)
  then have "moves [Completed it] ?b (await_all [p1, p2, p3] s3)"
    by (intro moves_then_hooked [OF _ await_all_hooked] moves_then_hooked [OF _ h3]
          moves_then_hooked [OF _ h2] moves_then_hooked [OF _ h1])
  then show ?thesis by (simp add: r)
qed


lemma launch_cases:
  assumes "launch it s = (lr, s5)"
  shows "\<not> is_function it \<and> processor s = None \<Longrightarrow> s5 = s \<and> (\<exists>ex. lr = Inl ex)"
    and "is_function it \<or> processor s \<noteq> None \<Longrightarrow> s5 = s\<lparr>trace := trace s @ [Launched it]\<rparr>"
  using assms unfolding launch_def
  by (auto split: item.splits option.splits)

lemma launch_log_cases: "launch_log it r s = [] \<or> launch_log it r s = [Launched it]"
  by (simp add: launch_log_def)

lemma launch_log_simps [simp]:
  "others (launch_log it r s) = launch_log it r s" "calls_of e (launch_log it r s) = 0"
  by (simp_all add: launch_log_def others_def)

lemma beforeItem_moves:
  assumes "retrieveNextPromise_beforeItem it p s = (r, s')"
  shows "moves (launch_log it (resolved_value p) s) s s'"
    and "r \<noteq> None \<Longrightarrow> launch_log it (resolved_value p) s = [Launched it]"
proof -
  define s4 where "s4 = await p s"
  obtain lr s5 where e5: "launch it s4 = (lr, s5)" by (cases "launch it s4")
  have unf: "retrieveNextPromise_beforeItem it p s =
      (if withheld (resolved_value p) then (None, s4)
       else (case lr of Inr pr \<Rightarrow> (Some pr, s5)
                      | Inl ex \<Rightarrow> (None, finish (onError ex) s5)))"
    unfolding retrieveNextPromise_beforeItem_def Let_def withheld_def
    using e5 by (simp add: s4_def split: sum.splits)
  have m4: "moves [] s s4"
    unfolding s4_def using await_hooked [of s p] by (simp add: hooked_def)
  have p4: "processor s4 = processor s" using moves_fields(4) [OF m4] .
  have both: "moves (launch_log it (resolved_value p) s) s s'
              \<and> (r \<noteq> None \<longrightarrow> launch_log it (resolved_value p) s = [Launched it])"
  proof (cases "withheld (resolved_value p)")
    case True
    then have "s' = s4" "r = None" using assms unf by auto
    then show ?thesis using m4 True by (simp add: launch_log_def)
  next
    case False
    show ?thesis
    proof (cases "\<not> is_function it \<and> processor s = None")
      case True
      with launch_cases(1) [OF e5] p4 obtain ex where a: "s5 = s4" "lr = Inl ex" by auto
      then have "s' = finish (onError ex) s5" "r = None" using assms unf False by auto
      then have "moves [] s s'"
        using m4 a moves_then_hooked [OF _ finish_onError_hooked] by simp
      then show ?thesis using \<open>r = None\<close> True by (simp add: launch_log_def)
    next
      case F: False
      with launch_cases(2) [OF e5] p4 have a: "s5 = s4\<lparr>trace := trace s4 @ [Launched it]\<rparr>"
        by auto
      have "moves [Launched it] s4 s5"
        unfolding a using moves_log [of "[Launched it]" "[Launched it]" s4]
        by (simp add: others_def)
      then have m5: "moves [Launched it] s s5"
        using moves_trans [OF m4] by fastforce
      have "hooked s5 s'"
        using assms unf False by (auto split: sum.splits intro: finish_onError_hooked)
      then have "moves [Launched it] s s'"
        using m5 by (blast intro: moves_then_hooked)
      then show ?thesis using False F by (auto simp: launch_log_def)
    qed
  qed
  from both show "moves (launch_log it (resolved_value p) s) s s'" by blast
  from both show "r \<noteq> None \<Longrightarrow> launch_log it (resolved_value p) s = [Launched it]" by blast
qed


lemma moves_upd_count:
  assumes "moves L s t"
  shows "moves L (s\<lparr>inProgressCount := c\<rparr>) (t\<lparr>inProgressCount := c\<rparr>)"
proof -
  from assms obtain h tr where
    "t = s\<lparr>halted := h, trace := trace s @ tr\<rparr>" "halted s \<longrightarrow> h" "others tr = L"
    "calls_of EvHalted tr = (if \<not> halted s \<and> h \<and> callbacks s EvHalted \<noteq> None then 1 else 0)"
    unfolding moves_def by blast
  then show ?thesis
    unfolding moves_def by (intro exI [of _ h] exI [of _ tr]) simp
qed

lemma moves_upd_inflight:
  assumes "moves L s t"
  shows "moves L (s\<lparr>inflight := f\<rparr>) (t\<lparr>inflight := f\<rparr>)"
proof -
  from assms obtain h tr where
    "t = s\<lparr>halted := h, trace := trace s @ tr\<rparr>" "halted s \<longrightarrow> h" "others tr = L"
    "calls_of EvHalted tr = (if \<not> halted s \<and> h \<and> callbacks s EvHalted \<noteq> None then 1 else 0)"
    unfolding moves_def by blast
  then show ?thesis
    unfolding moves_def by (intro exI [of _ h] exI [of _ tr]) simp
qed

lemma moves_upd_retrieving:
  assumes "moves L s t"
  shows "moves L (s\<lparr>retrieving := f\<rparr>) (t\<lparr>retrieving := f\<rparr>)"
proof -
  from assms obtain h tr where
    "t = s\<lparr>halted := h, trace := trace s @ tr\<rparr>" "halted s \<longrightarrow> h" "others tr = L"
    "calls_of EvHalted tr = (if \<not> halted s \<and> h \<and> callbacks s EvHalted \<noteq> None then 1 else 0)"
    unfolding moves_def by blast
  then show ?thesis
    unfolding moves_def by (intro exI [of _ h] exI [of _ tr]) simp
qed

lemma hooked_upd_retrieving:
  "hooked s t \<Longrightarrow> hooked (s\<lparr>retrieving := f\<rparr>) (t\<lparr>retrieving := f\<rparr>)"
  unfolding hooked_def by (rule moves_upd_retrieving)

lemma retrieveNextPromise_moves:
  fixes s :: wq
  defines "it \<equiv> fst (shift (queue s))"
  shows "\<exists>ps. moves [Dequeued it]
                (s\<lparr>queue := snd (shift (queue s)), inProgressCount := inProgressCount s + 1,
                    retrieving := retrieving s @ [(it, SizeChangeCalled ps)]\<rparr>)
                (retrieveNextPromise s)"
proof -
  define b where "b = s\<lparr>queue := snd (shift (queue s)), inProgressCount := inProgressCount s + 1\<rparr>"
  define s1 where "s1 = s\<lparr>queue := snd (shift (queue s)), inProgressCount := inProgressCount s + 1,
                         trace := trace s @ [Dequeued it]\<rparr>"
  obtain s2 ps where e2: "onQueueSizeChange s1 = (s2, ps)" by (cases "onQueueSizeChange s1")
  have res: "retrieveNextPromise s = s2\<lparr>retrieving := retrieving s2 @ [(it, SizeChangeCalled ps)]\<rparr>"
    unfolding retrieveNextPromise_def Let_def using e2 by (simp add: s1_def it_def)
  have m1: "moves [Dequeued it] b s1"
    using moves_log [of "[Dequeued it]" "[Dequeued it]" b]
    by (simp add: b_def s1_def others_def)
  have "hooked s1 s2" using e2 by (rule onQueueSizeChange_hooked)
  then have m2: "moves [Dequeued it] b s2" using m1 by (blast intro: moves_then_hooked)
  have r2: "retrieving s2 = retrieving s" using moves_fields(11) [OF m2] by (simp add: b_def)
  from moves_upd_retrieving [OF m2, of "retrieving s @ [(it, SizeChangeCalled ps)]"]
  show ?thesis using res r2 by (auto simp: b_def)
qed

lemma evaluateQueue_cases:
  assumes "evaluateQueue s \<noteq> s"
  shows "evaluateQueue s = retrieveNextPromise s" "\<not> halted s" "\<not> paused s"
    "of_int (inProgressCount s) < concurrencyLimit s" "queue s \<noteq> []"
  using assms
  by (auto simp: evaluateQueue_def processNextItemWrapper_def processNextItem_def
           split: if_splits)

lemma retrieved_moves:
  fixes it p s
  defines "L \<equiv> launch_log it (resolved_value p) s"
  defines "t \<equiv> processNextItem_retrieved it (retrieveNextPromise_beforeItem it p s)"
  shows "moves (L @ [Completed it]) (s\<lparr>inProgressCount := inProgressCount s - 1\<rparr>) t
       \<or> (L = [Launched it] \<and> (\<exists>pr. moves [Launched it] (s\<lparr>inflight := inflight s @ [(it, pr)]\<rparr>) t))"
proof -
  obtain r s1 where e: "retrieveNextPromise_beforeItem it p s = (r, s1)"
    by (cases "retrieveNextPromise_beforeItem it p s")
  note m = beforeItem_moves(1) [OF e, folded L_def]
  show ?thesis
  proof (cases r)
    case None
    then have res: "t = processNextItemWrapper_done it s1"
      using e by (simp add: processNextItem_retrieved_def t_def)
    have c1: "inProgressCount s1 = inProgressCount s" using moves_fields(2) [OF m] .
    have "moves L (s\<lparr>inProgressCount := inProgressCount s - 1\<rparr>)
            (s1\<lparr>inProgressCount := inProgressCount s - 1\<rparr>)"
      by (rule moves_upd_count [OF m])
    then have m2: "moves L (s\<lparr>inProgressCount := inProgressCount s - 1\<rparr>)
            (s1\<lparr>inProgressCount := inProgressCount s1 - 1\<rparr>)"
      using c1 by simp
    have "moves (L @ [Completed it]) (s\<lparr>inProgressCount := inProgressCount s - 1\<rparr>)
            (processNextItemWrapper_done it s1)"
      by (rule moves_trans [OF m2 wrapper_done_moves])
    then show ?thesis using res by simp
  next
    case (Some pr)
    then have res: "t = s1\<lparr>inflight := inflight s1 @ [(it, pr)]\<rparr>"
      using e by (simp add: processNextItem_retrieved_def t_def)
    have L': "L = [Launched it]" using beforeItem_moves(2) [OF e] Some by (simp add: L_def)
    have i1: "inflight s1 = inflight s" using moves_fields(7) [OF m] .
    have "moves L (s\<lparr>inflight := inflight s @ [(it, pr)]\<rparr>)
            (s1\<lparr>inflight := inflight s @ [(it, pr)]\<rparr>)"
      by (rule moves_upd_inflight [OF m])
    then show ?thesis using res L' i1 by auto
  qed
qed

lemma sizeChanged_hooked:
  assumes "retrieveNextPromise_sizeChanged ps s = (s1, p)"
  shows "hooked s s1"
proof -
  have "hooked (await_all ps s) s1"
    using assms unfolding retrieveNextPromise_sizeChanged_def onBeforeItemProcessed_def
    by (rule callHandler_hooked) simp_all
  with await_all_hooked [of s ps] show ?thesis by (blast intro: hooked_trans)
qed

text \<open>What a turn of \<open>proceed\<close> does to a waiting item, in the three ways it can go.\<close>

lemma proceed_moves:
  assumes "n < length (retrieving s)"
  shows "(\<exists>it ps p. retrieving s ! n = (it, SizeChangeCalled ps)
            \<and> hooked (s\<lparr>retrieving := (retrieving s)[n := (it, BeforeItemCalled p)]\<rparr>) (proceed n s))
       \<or> (\<exists>it p. retrieving s ! n = (it, BeforeItemCalled p)
            \<and> moves (launch_log it (resolved_value p) s @ [Completed it])
                (s\<lparr>retrieving := take n (retrieving s) @ drop (Suc n) (retrieving s),
                    inProgressCount := inProgressCount s - 1\<rparr>) (proceed n s))
       \<or> (\<exists>it p pr. retrieving s ! n = (it, BeforeItemCalled p)
            \<and> launch_log it (resolved_value p) s = [Launched it]
            \<and> moves [Launched it]
                (s\<lparr>retrieving := take n (retrieving s) @ drop (Suc n) (retrieving s),
                    inflight := inflight s @ [(it, pr)]\<rparr>) (proceed n s))"
proof -
  obtain it st where e: "retrieving s ! n = (it, st)" by (cases "retrieving s ! n")
  show ?thesis
  proof (cases st)
    case (SizeChangeCalled ps)
    obtain s1 p where e1: "retrieveNextPromise_sizeChanged ps s = (s1, p)"
      by (cases "retrieveNextPromise_sizeChanged ps s")
    have h: "hooked s s1" by (rule sizeChanged_hooked [OF e1])
    have r1: "retrieving s1 = retrieving s" using hooked_fields(11) [OF h] .
    have res: "proceed n s = s1\<lparr>retrieving := (retrieving s)[n := (it, BeforeItemCalled p)]\<rparr>"
      using assms e SizeChangeCalled e1 r1 by (simp add: proceed_def)
    from hooked_upd_retrieving [OF h, of "(retrieving s)[n := (it, BeforeItemCalled p)]"]
    show ?thesis using res e SizeChangeCalled by auto
  next
    case (BeforeItemCalled p)
    let ?b = "s\<lparr>retrieving := take n (retrieving s) @ drop (Suc n) (retrieving s)\<rparr>"
    have res: "proceed n s = processNextItem_retrieved it (retrieveNextPromise_beforeItem it p ?b)"
      using assms e BeforeItemCalled by (simp add: proceed_def)
    have ll: "launch_log it (resolved_value p) ?b = launch_log it (resolved_value p) s"
      by (simp add: launch_log_def)
    from retrieved_moves [of it p ?b]
    show ?thesis using res e BeforeItemCalled ll by auto
  qed
qed

lemma proceed_out_of_range: "\<not> n < length (retrieving s) \<Longrightarrow> proceed n s = s"
  by (simp add: proceed_def)

lemma settle_moves:
  assumes "n < length (inflight s)"
  shows "moves [Completed (fst (inflight s ! n))]
           (s\<lparr>inflight := take n (inflight s) @ drop (Suc n) (inflight s),
               inProgressCount := inProgressCount s - 1\<rparr>)
           (settle n s)"
proof -
  obtain it pr where e: "inflight s ! n = (it, pr)" by (cases "inflight s ! n")
  let ?s1 = "s\<lparr>inflight := take n (inflight s) @ drop (Suc n) (inflight s)\<rparr>"
  let ?s2 = "processNextItem_settled pr ?s1"
  have res: "settle n s = processNextItemWrapper_done it ?s2"
    using assms e by (simp add: settle_def)
  have h: "hooked ?s1 ?s2" by (rule processNextItem_settled_hooked)
  then have m: "moves [] ?s1 ?s2" by (simp add: hooked_def)
  have c: "inProgressCount ?s2 = inProgressCount s" using moves_fields(2) [OF m] by simp
  have "moves [] (?s1\<lparr>inProgressCount := inProgressCount s - 1\<rparr>)
          (?s2\<lparr>inProgressCount := inProgressCount ?s2 - 1\<rparr>)"
    using moves_upd_count [OF m, of "inProgressCount s - 1"] c by simp
  from moves_trans [OF this wrapper_done_moves [of it ?s2]]
  show ?thesis using res e by simp
qed

section \<open>Admission, step by step\<close>

lemma moves_trace: "moves L s t \<Longrightarrow> \<exists>tr. trace t = trace s @ tr"
  unfolding moves_def by auto

lemma hooked_trace: "hooked s t \<Longrightarrow> \<exists>tr. trace t = trace s @ tr"
  unfolding hooked_def by (rule moves_trace)

lemma callHandler_calls:
  assumes "callHandler ev a s = (s1, p)" and "ev \<noteq> EvError" and "ev \<noteq> EvHalted"
    and "e \<noteq> EvError" and "e \<noteq> EvHalted"
  shows "calls_of e (trace s1) = calls_of e (trace s) + calls_of e (fired ev a s)"
  using counted_facts(10) [OF callHandler_counted(1) [OF assms(1-3)] assms(4,5)] by simp

lemma await_calls:
  "e \<noteq> EvError \<Longrightarrow> e \<noteq> EvHalted \<Longrightarrow> calls_of e (trace (await p s)) = calls_of e (trace s)"
  using counted_facts(10) [OF await_counted] by simp

lemma await_all_calls:
  "e \<noteq> EvError \<Longrightarrow> e \<noteq> EvHalted \<Longrightarrow> calls_of e (trace (await_all ps s)) = calls_of e (trace s)"
  using counted_facts(10) [OF await_all_counted] by simp

lemma calls_of_fired [simp]:
  "calls_of e (fired ev a s) = (if e = ev \<and> callbacks s ev \<noteq> None then 1 else 0)"
  by (auto simp: fired_def split: option.splits)

lemma onQueueSizeChange_calls:
  assumes "onQueueSizeChange s = (s', ps)"
    and "e \<noteq> EvError" and "e \<noteq> EvHalted" and "e \<noteq> EvQueueSizeChange" and "e \<noteq> EvQueueEmpty"
  shows "calls_of e (trace s') = calls_of e (trace s)"
proof -
  obtain s1 p1 where e1: "callHandler EvQueueSizeChange (JNum (int (getQueueSize s))) s = (s1, p1)"
    by fastforce
  obtain s2 p2 where e2: "callHandler EvQueueEmpty JUndefined s1 = (s2, p2)" by fastforce
  have c1: "calls_of e (trace s1) = calls_of e (trace s)"
    using callHandler_calls [OF e1 _ _ assms(2,3)] assms by simp
  have c2: "calls_of e (trace s2) = calls_of e (trace s1)"
    using callHandler_calls [OF e2 _ _ assms(2,3)] assms by simp
  show ?thesis
    using assms(1) e1 e2 c1 c2 unfolding onQueueSizeChange_def Let_def
    by (auto split: if_splits)
qed

lemma retrieveNextPromise_hooked:
  fixes s :: wq
  defines "it \<equiv> fst (shift (queue s))"
  obtains ps where
    "hooked (s\<lparr>queue := snd (shift (queue s)), inProgressCount := inProgressCount s + 1,
               trace := trace s @ [Dequeued it],
               retrieving := retrieving s @ [(it, SizeChangeCalled ps)]\<rparr>)
       (retrieveNextPromise s)"
    and "\<And>e. e \<noteq> EvError \<Longrightarrow> e \<noteq> EvHalted \<Longrightarrow> e \<noteq> EvQueueSizeChange \<Longrightarrow> e \<noteq> EvQueueEmpty
           \<Longrightarrow> calls_of e (trace (retrieveNextPromise s)) = calls_of e (trace s)"
proof -
  define s1 where "s1 = s\<lparr>queue := snd (shift (queue s)), inProgressCount := inProgressCount s + 1,
                         trace := trace s @ [Dequeued it]\<rparr>"
  obtain s2 ps where e2: "onQueueSizeChange s1 = (s2, ps)" by (cases "onQueueSizeChange s1")
  have res: "retrieveNextPromise s = s2\<lparr>retrieving := retrieving s2 @ [(it, SizeChangeCalled ps)]\<rparr>"
    unfolding retrieveNextPromise_def Let_def using e2 by (simp add: s1_def it_def)
  have h: "hooked s1 s2" using e2 by (rule onQueueSizeChange_hooked)
  have r2: "retrieving s2 = retrieving s" using hooked_fields(11) [OF h] by (simp add: s1_def)
  from hooked_upd_retrieving [OF h, of "retrieving s @ [(it, SizeChangeCalled ps)]"]
  have 1: "hooked (s\<lparr>queue := snd (shift (queue s)), inProgressCount := inProgressCount s + 1,
               trace := trace s @ [Dequeued it],
               retrieving := retrieving s @ [(it, SizeChangeCalled ps)]\<rparr>)
       (retrieveNextPromise s)"
    using res r2 by (simp add: s1_def)
  have 2: "\<And>e. e \<noteq> EvError \<Longrightarrow> e \<noteq> EvHalted \<Longrightarrow> e \<noteq> EvQueueSizeChange \<Longrightarrow> e \<noteq> EvQueueEmpty
           \<Longrightarrow> calls_of e (trace (retrieveNextPromise s)) = calls_of e (trace s)"
    subgoal for e
      using onQueueSizeChange_calls [OF e2, of e] res by (simp add: s1_def)
    done
  from that [OF 1 2] show ?thesis by blast
qed

lemma proceed_sizeChanged:
  assumes "n < length (retrieving s)" and "retrieving s ! n = (it, SizeChangeCalled ps)"
  obtains p where
    "hooked (s\<lparr>retrieving := (retrieving s)[n := (it, BeforeItemCalled p)]\<rparr>) (proceed n s)"
    and "resolved_value p = before_answer s"
    and "\<And>e. e \<noteq> EvError \<Longrightarrow> e \<noteq> EvHalted \<Longrightarrow> e \<noteq> EvBeforeItemProcessed
           \<Longrightarrow> calls_of e (trace (proceed n s)) = calls_of e (trace s)"
proof -
  define s' where "s' = await_all ps s"
  obtain s1 p where e1: "onBeforeItemProcessed s' = (s1, p)" by (cases "onBeforeItemProcessed s'")
  have h0: "hooked s s'" unfolding s'_def by (rule await_all_hooked)
  have h1: "hooked s' s1"
    using e1 unfolding onBeforeItemProcessed_def by (rule callHandler_hooked) simp_all
  have h: "hooked s s1" using h0 h1 by (rule hooked_trans)
  have r1: "retrieving s1 = retrieving s" using hooked_fields(11) [OF h] .
  have res: "proceed n s = s1\<lparr>retrieving := (retrieving s)[n := (it, BeforeItemCalled p)]\<rparr>"
    using assms e1 r1 by (simp add: proceed_def retrieveNextPromise_sizeChanged_def s'_def)
  have cb: "callbacks s' = callbacks s" using hooked_fields(5) [OF h0] .
  have n: "calls_of EvBeforeItemProcessed (trace s') = calls_of EvBeforeItemProcessed (trace s)"
    unfolding s'_def by (simp add: await_all_calls)
  have rv: "resolved_value p = before_answer s"
    using callHandler_counted(2) [OF e1 [unfolded onBeforeItemProcessed_def]] cb n
    by (simp add: before_answer_def split: option.splits)
  from hooked_upd_retrieving [OF h, of "(retrieving s)[n := (it, BeforeItemCalled p)]"]
  have 1: "hooked (s\<lparr>retrieving := (retrieving s)[n := (it, BeforeItemCalled p)]\<rparr>) (proceed n s)"
    using res by simp
  have 3: "\<And>e. e \<noteq> EvError \<Longrightarrow> e \<noteq> EvHalted \<Longrightarrow> e \<noteq> EvBeforeItemProcessed
           \<Longrightarrow> calls_of e (trace (proceed n s)) = calls_of e (trace s)"
    subgoal for e
      using callHandler_calls [OF e1 [unfolded onBeforeItemProcessed_def], of e] res
      by (simp add: s'_def await_all_calls)
    done
  from that [OF 1 rv 3] show ?thesis by blast
qed

lemma proceed_beforeItem:
  assumes "n < length (retrieving s)" and "retrieving s ! n = (it, BeforeItemCalled p)"
  shows "proceed n s
           = processNextItem_retrieved it
               (retrieveNextPromise_beforeItem it p
                  (s\<lparr>retrieving := take n (retrieving s) @ drop (Suc n) (retrieving s)\<rparr>))"
  using assms by (simp add: proceed_def)

text \<open>
  \<open>admit\<close> unfolded: the item at the front is taken, the callbacks are called, and the
  item is let go according to the answer of \<open>beforeItemProcessed\<close>.
\<close>

lemma admit_before:
  assumes "\<not> halted s" and "\<not> paused s" and "of_int (inProgressCount s) < concurrencyLimit s"
    and "queue s = it # rest"
  obtains s3 p where
    "hooked (s\<lparr>queue := rest, inProgressCount := inProgressCount s + 1,
               trace := trace s @ [Dequeued it]\<rparr>) s3"
    and "resolved_value p = before_answer s"
    and "calls_of EvNoWork (trace s3) = calls_of EvNoWork (trace s)"
    and "admit s = processNextItem_retrieved it (retrieveNextPromise_beforeItem it p s3)"
proof -
  define n where "n = length (retrieving s)"
  have sh: "fst (shift (queue s)) = it" "snd (shift (queue s)) = rest"
    using assms(4) by (simp_all add: shift_def)
  have ev: "evaluateQueue s = retrieveNextPromise s"
    using assms
    by (simp add: evaluateQueue_def processNextItemWrapper_def processNextItem_def)
  define s1 where "s1 = retrieveNextPromise s"
  obtain ps where
    h1: "hooked (s\<lparr>queue := rest, inProgressCount := inProgressCount s + 1,
               trace := trace s @ [Dequeued it],
               retrieving := retrieving s @ [(it, SizeChangeCalled ps)]\<rparr>) s1"
    and c1: "\<And>e. e \<noteq> EvError \<Longrightarrow> e \<noteq> EvHalted \<Longrightarrow> e \<noteq> EvQueueSizeChange \<Longrightarrow> e \<noteq> EvQueueEmpty
           \<Longrightarrow> calls_of e (trace s1) = calls_of e (trace s)"
    using retrieveNextPromise_hooked [of s] unfolding sh s1_def by blast
  have r1: "retrieving s1 = retrieving s @ [(it, SizeChangeCalled ps)]"
    using hooked_fields(11) [OF h1] by simp
  have cb1: "callbacks s1 = callbacks s" using hooked_fields(5) [OF h1] by simp
  have n1: "n < length (retrieving s1)" "retrieving s1 ! n = (it, SizeChangeCalled ps)"
    using r1 by (simp_all add: n_def)
  define s2 where "s2 = proceed n s1"
  obtain p where
    h2: "hooked (s1\<lparr>retrieving := (retrieving s1)[n := (it, BeforeItemCalled p)]\<rparr>) s2"
    and rv: "resolved_value p = before_answer s1"
    and c2: "\<And>e. e \<noteq> EvError \<Longrightarrow> e \<noteq> EvHalted \<Longrightarrow> e \<noteq> EvBeforeItemProcessed
           \<Longrightarrow> calls_of e (trace s2) = calls_of e (trace s1)"
    using proceed_sizeChanged [OF n1] unfolding s2_def by blast
  have r2: "retrieving s2 = retrieving s @ [(it, BeforeItemCalled p)]"
    using hooked_fields(11) [OF h2] r1 by (simp add: n_def)
  have n2: "n < length (retrieving s2)" "retrieving s2 ! n = (it, BeforeItemCalled p)"
    using r2 by (simp_all add: n_def)
  define s3 where "s3 = s2\<lparr>retrieving := retrieving s\<rparr>"
  have t: "take n (retrieving s2) @ drop (Suc n) (retrieving s2) = retrieving s"
    using r2 by (simp add: n_def)
  have res: "admit s = processNextItem_retrieved it (retrieveNextPromise_beforeItem it p s3)"
    unfolding admit_def Let_def ev
    using proceed_beforeItem [OF n2] t by (simp add: n_def [symmetric] s1_def s2_def s3_def)
  have b: "before_answer s1 = before_answer s"
    using cb1 c1 [of EvBeforeItemProcessed] by (simp add: before_answer_def split: option.splits)
  have nw: "calls_of EvNoWork (trace s3) = calls_of EvNoWork (trace s)"
    using c1 [of EvNoWork] c2 [of EvNoWork] by (simp add: s3_def)
  have "hooked (s\<lparr>queue := rest, inProgressCount := inProgressCount s + 1,
               trace := trace s @ [Dequeued it]\<rparr>) (s1\<lparr>retrieving := retrieving s\<rparr>)"
    using hooked_upd_retrieving [OF h1, of "retrieving s"] by simp
  moreover have "hooked (s1\<lparr>retrieving := retrieving s\<rparr>) s3"
    using hooked_upd_retrieving [OF h2, of "retrieving s"] by (simp add: s3_def)
  ultimately have "hooked (s\<lparr>queue := rest, inProgressCount := inProgressCount s + 1,
               trace := trace s @ [Dequeued it]\<rparr>) s3"
    by (rule hooked_trans)
  from that [OF this _ nw res] rv b show ?thesis by simp
qed

lemma await_skip:
  assumes "resolved_value p = BEFORE_SKIP"
  shows "await p s = s"
proof (cases p)
  case (HandlerReturned ev out)
  then show ?thesis using assms by (cases out) (auto simp: BEFORE_SKIP_def BEFORE_HALT_def)
qed (use assms in \<open>auto simp: BEFORE_SKIP_def\<close>)

lemma beforeItem_skip:
  "resolved_value p = BEFORE_SKIP \<Longrightarrow> retrieveNextPromise_beforeItem it p s = (None, s)"
  by (simp add: retrieveNextPromise_beforeItem_def Let_def await_skip)

lemma onError_calls_error:
  assumes "callbacks s EvError = Some ecb"
  shows "\<exists>tr. trace (finish (onError e) s) = trace s @ Called EvError e # tr"
proof -
  let ?s1 = "s\<lparr>trace := trace s @ [Called EvError e]\<rparr>"
  obtain s2 p where e2: "onError e s = (s2, p)" by (cases "onError e s")
  have "counted ?s1 s2"
  proof (cases "ecb (calls_of EvError (trace s)) e")
    case (Throws ex)
    then have "halt (JHaltData ERRORCALLBACKERROR ex (JStr ''error'')) ?s1 = (s2, p)"
      using e2 assms by (simp add: onError_def invoke_def)
    then show ?thesis by (rule halt_counted)
  qed (use e2 assms in \<open>auto simp: onError_def invoke_def\<close>)
  from counted_trans [OF this await_counted [of s2 p]]
  have "counted ?s1 (finish (onError e) s)" using e2 by (simp add: finish_def)
  from counted_facts(9) [OF this] show ?thesis by auto
qed


section \<open>Invariants of a run\<close>

lemma length_without:
  "n < length xs \<Longrightarrow> length (take n xs @ drop (Suc n) xs) = length xs - 1"
  by auto

lemma exec_count_ok:
  assumes "count_ok s"
  shows "count_ok (exec a s) \<and> concurrencyLimit (exec a s) = concurrencyLimit s"
proof (cases a)
  case (Add it)
  show ?thesis
  proof (cases "add it s")
    case (Inl e)
    then show ?thesis using Add assms by simp
  next
    case (Inr s')
    from moves_fields [OF add_moves [OF Inr]] show ?thesis
      using Add Inr assms by (simp add: count_ok_def)
  qed
next
  case (AddAll items)
  from moves_fields [OF addAll_moves [of items s]] show ?thesis
    using AddAll assms by (simp add: count_ok_def)
next
  case Evaluate
  show ?thesis
  proof (cases "evaluateQueue s = s")
    case True
    then show ?thesis using Evaluate assms by simp
  next
    case False
    note c = evaluateQueue_cases [OF False]
    from retrieveNextPromise_moves [of s] obtain ps where
      "moves [Dequeued (fst (shift (queue s)))]
         (s\<lparr>queue := snd (shift (queue s)), inProgressCount := inProgressCount s + 1,
             retrieving := retrieving s @ [(fst (shift (queue s)), SizeChangeCalled ps)]\<rparr>)
         (retrieveNextPromise s)"
      by blast
    from moves_fields [OF this] show ?thesis
      using Evaluate c(1,4) assms by (simp add: count_ok_def)
  qed
next
  case (Proceed n)
  show ?thesis
  proof (cases "n < length (retrieving s)")
    case True
    then have pos: "int (length (retrieving s) - 1) = int (length (retrieving s)) - 1"
      by auto
    from proceed_moves [OF True] consider
      (called) it p where
        "hooked (s\<lparr>retrieving := (retrieving s)[n := (it, BeforeItemCalled p)]\<rparr>) (proceed n s)"
    | (finished) it p where
        "moves (launch_log it (resolved_value p) s @ [Completed it])
           (s\<lparr>retrieving := take n (retrieving s) @ drop (Suc n) (retrieving s),
               inProgressCount := inProgressCount s - 1\<rparr>) (proceed n s)"
    | (flying) it pr where
        "moves [Launched it]
           (s\<lparr>retrieving := take n (retrieving s) @ drop (Suc n) (retrieving s),
               inflight := inflight s @ [(it, pr)]\<rparr>) (proceed n s)"
      by blast
    then show ?thesis
    proof cases
      case called
      from hooked_fields [OF this] show ?thesis
        using Proceed assms by (simp add: count_ok_def)
    next
      case finished
      from moves_fields [OF this] show ?thesis
        using Proceed assms pos length_without [OF True] by (simp add: count_ok_def)
    next
      case flying
      from moves_fields [OF this] show ?thesis
        using Proceed assms pos length_without [OF True] by (simp add: count_ok_def)
    qed
  next
    case False
    then show ?thesis using Proceed assms by (simp add: proceed_def)
  qed
next
  case (Settle n)
  show ?thesis
  proof (cases "n < length (inflight s)")
    case True
    then have pos: "int (length (inflight s) - 1) = int (length (inflight s)) - 1"
      by auto
    from moves_fields [OF settle_moves [OF True]] show ?thesis
      using Settle assms pos length_without [OF True] by (simp add: count_ok_def)
  next
    case False
    then show ?thesis using Settle assms by (simp add: settle_def)
  qed
next
  case Pause
  from hooked_fields [OF pause_hooked [of s]] show ?thesis
    using Pause assms by (simp add: count_ok_def)
next
  case Resume
  show ?thesis
  proof (cases "paused s")
    case True
    from hooked_fields [OF resume_hooked [OF True]] show ?thesis
      using Resume assms by (simp add: count_ok_def)
  next
    case False
    then show ?thesis using Resume assms by (simp add: resume_def)
  qed
next
  case Clear
  from moves_fields [OF clear_moves [of s]] show ?thesis
    using Clear assms by (simp add: count_ok_def)
next
  case (On trigger cb)
  then show ?thesis using assms
    by (auto simp: on_def count_ok_def split: callback_arg.splits option.splits if_splits)
qed

lemma run_count_ok:
  "count_ok s \<Longrightarrow> count_ok (run acts s) \<and> concurrencyLimit (run acts s) = concurrencyLimit s"
  unfolding run_def
proof (induction acts arbitrary: s)
  case Nil
  then show ?case by simp
next
  case (Cons a acts)
  from exec_count_ok [OF Cons.prems, of a] Cons.IH [of "exec a s"]
  show ?case by simp
qed

lemma new_WorkQueue_fresh:
  assumes "new_WorkQueue given = Inr s0"
  shows "queue s0 = []" "inProgressCount s0 = 0" "callbacks s0 = (\<lambda>ev. None)"
    "\<not> halted s0" "\<not> paused s0" "inflight s0 = []" "trace s0 = []" "1 \<le> concurrencyLimit s0"
    "retrieving s0 = []"
  using assms
  by (auto simp: new_WorkQueue_def validateOptions_def Let_def
           split: sum.splits number.splits if_splits processor_arg.splits prod.splits)

lemma new_WorkQueue_count_ok: "new_WorkQueue given = Inr s0 \<Longrightarrow> count_ok s0"
  using new_WorkQueue_fresh [of given s0] by (simp add: count_ok_def)

lemma count_ok_one:
  assumes "count_ok s" and "concurrencyLimit s = 1"
  shows "length (retrieving s) + length (inflight s) \<le> 1"
proof -
  have "inProgressCount s < 2" using assms by (simp add: count_ok_def)
  then show ?thesis using assms(1) by (simp add: count_ok_def)
qed

lemma proj_others:
  assumes "\<And>ev a. f (Called ev a) = []"
  shows "concat (map f tr) = concat (map f (others tr))"
proof (induction tr)
  case Nil
  then show ?case by simp
next
  case (Cons x tr)
  then show ?case using assms by (cases x) (simp_all add: others_def)
qed

lemma moves_proj:
  assumes "moves L s t"
  shows "enqueued (trace t) = enqueued (trace s) @ enqueued L"
    and "removed (trace t) = removed (trace s) @ removed L"
    and "dequeued (trace t) = dequeued (trace s) @ dequeued L"
    and "launched (trace t) = launched (trace s) @ launched L"
    and "completed (trace t) = completed (trace s) @ completed L"
proof -
  have o: "others (trace t) = others (trace s) @ L" using moves_fields(9) [OF assms] .
  show "enqueued (trace t) = enqueued (trace s) @ enqueued L"
    unfolding enqueued_def
    using proj_others [of enqueued_of "trace t"] proj_others [of enqueued_of "trace s"] o by simp
  show "removed (trace t) = removed (trace s) @ removed L"
    unfolding removed_def
    using proj_others [of removed_of "trace t"] proj_others [of removed_of "trace s"] o by simp
  show "dequeued (trace t) = dequeued (trace s) @ dequeued L"
    unfolding dequeued_def
    using proj_others [of dequeued_of "trace t"] proj_others [of dequeued_of "trace s"] o by simp
  show "launched (trace t) = launched (trace s) @ launched L"
    unfolding launched_def
    using proj_others [of launched_of "trace t"] proj_others [of launched_of "trace s"] o by simp
  show "completed (trace t) = completed (trace s) @ completed L"
    unfolding completed_def
    using proj_others [of completed_of "trace t"] proj_others [of completed_of "trace s"] o by simp
qed

lemmas hooked_proj = moves_proj [of "[]", folded hooked_def]

lemma proj_simps [simp]:
  "enqueued [] = []" "removed [] = []" "dequeued [] = []" "launched [] = []" "completed [] = []"
  "enqueued (x # xs) = enqueued_of x @ enqueued xs"
  "removed (x # xs) = removed_of x @ removed xs"
  "dequeued (x # xs) = dequeued_of x @ dequeued xs"
  "launched (x # xs) = launched_of x @ launched xs"
  "completed (x # xs) = completed_of x @ completed xs"
  "enqueued (xs @ ys) = enqueued xs @ enqueued ys"
  "removed (xs @ ys) = removed xs @ removed ys"
  "dequeued (xs @ ys) = dequeued xs @ dequeued ys"
  "launched (xs @ ys) = launched xs @ launched ys"
  "completed (xs @ ys) = completed xs @ completed ys"
  by (simp_all add: enqueued_def removed_def dequeued_def launched_def completed_def)

lemma proj_Enqueued [simp]:
  "enqueued (map Enqueued items) = items" "removed (map Enqueued items) = []"
  "dequeued (map Enqueued items) = []" "launched (map Enqueued items) = []"
  "completed (map Enqueued items) = []"
  by (induction items) simp_all

lemma proj_launch_log [simp]:
  "enqueued (launch_log it r s) = []" "removed (launch_log it r s) = []"
  "dequeued (launch_log it r s) = []" "completed (launch_log it r s) = []"
  by (simp_all add: launch_log_def)

lemma map_fst_update:
  "n < length xs \<Longrightarrow> xs ! n = (a, b) \<Longrightarrow> map fst (xs[n := (a, c)]) = map fst xs"
  by (simp add: map_update list_update_same_conv)

lemma exec_fifo_ok:
  assumes "fifo_ok s" and "count_ok s"
  shows "fifo_ok (exec a s)"
proof (cases a)
  case (Add it)
  show ?thesis
  proof (cases "add it s")
    case (Inl e)
    then show ?thesis using Add assms by simp
  next
    case (Inr s')
    from moves_fields [OF add_moves [OF Inr]] moves_proj [OF add_moves [OF Inr]] show ?thesis
      using Add Inr assms by (simp add: fifo_ok_def)
  qed
next
  case (AddAll items)
  from moves_fields [OF addAll_moves [of items s]] moves_proj [OF addAll_moves [of items s]]
  show ?thesis
    using AddAll assms by (simp add: fifo_ok_def)
next
  case Evaluate
  show ?thesis
  proof (cases "evaluateQueue s = s")
    case True
    then show ?thesis using Evaluate assms by simp
  next
    case False
    note c = evaluateQueue_cases [OF False]
    then obtain it rest where q: "queue s = it # rest" by (cases "queue s") auto
    then have sh: "fst (shift (queue s)) = it" "snd (shift (queue s)) = rest"
      by (simp_all add: shift_def)
    have idle: "concurrencyLimit s = 1 \<Longrightarrow> retrieving s = [] \<and> inflight s = []"
    proof -
      assume "concurrencyLimit s = 1"
      with c(4) have "inProgressCount s < 1" by simp
      with assms(2) have "length (retrieving s) = 0 \<and> length (inflight s) = 0"
        unfolding count_ok_def by arith
      then show ?thesis by simp
    qed
    from retrieveNextPromise_moves [of s] obtain ps where
      "moves [Dequeued it]
         (s\<lparr>queue := rest, inProgressCount := inProgressCount s + 1,
             retrieving := retrieving s @ [(it, SizeChangeCalled ps)]\<rparr>)
         (retrieveNextPromise s)"
      unfolding sh by blast
    from moves_fields [OF this] moves_proj [OF this] show ?thesis
      using Evaluate c(1) assms q idle by (auto simp: fifo_ok_def)
  qed
next
  case (Proceed n)
  show ?thesis
  proof (cases "n < length (retrieving s)")
    case True
    have one: "concurrencyLimit s = 1 \<Longrightarrow> n = 0 \<and> inflight s = [] \<and> (\<exists>x. retrieving s = [x])"
    proof -
      assume "concurrencyLimit s = 1"
      from count_ok_one [OF assms(2) this] True
      have "length (retrieving s) = 1 \<and> length (inflight s) = 0 \<and> n = 0" by arith
      then show ?thesis by (cases "retrieving s") auto
    qed
    from proceed_moves [OF True] consider
      (called) it ps p where "retrieving s ! n = (it, SizeChangeCalled ps)"
        "hooked (s\<lparr>retrieving := (retrieving s)[n := (it, BeforeItemCalled p)]\<rparr>) (proceed n s)"
    | (finished) it p where "retrieving s ! n = (it, BeforeItemCalled p)"
        "moves (launch_log it (resolved_value p) s @ [Completed it])
           (s\<lparr>retrieving := take n (retrieving s) @ drop (Suc n) (retrieving s),
               inProgressCount := inProgressCount s - 1\<rparr>) (proceed n s)"
    | (flying) it p pr where "retrieving s ! n = (it, BeforeItemCalled p)"
        "moves [Launched it]
           (s\<lparr>retrieving := take n (retrieving s) @ drop (Suc n) (retrieving s),
               inflight := inflight s @ [(it, pr)]\<rparr>) (proceed n s)"
      by blast
    then show ?thesis
    proof cases
      case called
      from hooked_fields [OF called(2)] hooked_proj [OF called(2)]
        map_fst_update [OF True called(1)]
      show ?thesis using Proceed assms by (simp add: fifo_ok_def)
    next
      case finished
      from moves_fields [OF finished(2)] moves_proj [OF finished(2)] finished(1)
      show ?thesis using Proceed assms one by (auto simp: fifo_ok_def)
    next
      case flying
      from moves_fields [OF flying(2)] moves_proj [OF flying(2)] flying(1)
      show ?thesis using Proceed assms one by (auto simp: fifo_ok_def)
    qed
  next
    case False
    then show ?thesis using Proceed assms by (simp add: proceed_def)
  qed
next
  case (Settle n)
  show ?thesis
  proof (cases "n < length (inflight s)")
    case True
    note f = moves_fields [OF settle_moves [OF True]] moves_proj [OF settle_moves [OF True]]
    show ?thesis
    proof (cases "concurrencyLimit s = 1")
      case False
      with f show ?thesis using Settle assms(1) True by (simp add: fifo_ok_def)
    next
      case one: True
      from count_ok_one [OF assms(2) one] True
      have "length (inflight s) = 1 \<and> length (retrieving s) = 0 \<and> n = 0" by arith
      then have "length (inflight s) = 1" "retrieving s = []" "n = 0" by simp_all
      then obtain x where x: "inflight s = [x]" by (cases "inflight s") auto
      from f show ?thesis
        using Settle assms(1) one \<open>n = 0\<close> \<open>retrieving s = []\<close> by (auto simp: fifo_ok_def x)
    qed
  next
    case False
    then show ?thesis using Settle assms by (simp add: settle_def)
  qed
next
  case Pause
  from hooked_fields [OF pause_hooked [of s]] hooked_proj [OF pause_hooked [of s]] show ?thesis
    using Pause assms by (simp add: fifo_ok_def)
next
  case Resume
  show ?thesis
  proof (cases "paused s")
    case True
    from hooked_fields [OF resume_hooked [OF True]] hooked_proj [OF resume_hooked [OF True]]
    show ?thesis
      using Resume assms by (simp add: fifo_ok_def)
  next
    case False
    then show ?thesis using Resume assms by (simp add: resume_def)
  qed
next
  case Clear
  from moves_fields [OF clear_moves [of s]] moves_proj [OF clear_moves [of s]] show ?thesis
    using Clear assms by (simp add: fifo_ok_def)
next
  case (On trigger cb)
  then show ?thesis using assms
    by (auto simp: on_def fifo_ok_def split: callback_arg.splits option.splits if_splits)
qed


lemma run_fifo_ok:
  "fifo_ok s \<Longrightarrow> count_ok s \<Longrightarrow> fifo_ok (run acts s)"
  unfolding run_def
proof (induction acts arbitrary: s)
  case Nil
  then show ?case by simp
next
  case (Cons a acts)
  from exec_fifo_ok [OF Cons.prems, of a] exec_count_ok [OF Cons.prems(2), of a]
    Cons.IH [of "exec a s"]
  show ?case by simp
qed

text \<open>
  What a turn adds to the dequeued and to the launched items, and what it does to the
  list of waiting items.
\<close>

lemma exec_no_clear:
  assumes "removed (trace s) = dequeued (trace s)" and "a \<noteq> Clear"
  shows "removed (trace (exec a s)) = dequeued (trace (exec a s))"
proof (cases a)
  case (Add it)
  show ?thesis
  proof (cases "add it s")
    case (Inl e)
    then show ?thesis using Add assms by simp
  next
    case (Inr s')
    from moves_proj [OF add_moves [OF Inr]] show ?thesis
      using Add Inr assms by simp
  qed
next
  case (AddAll items)
  from moves_proj [OF addAll_moves [of items s]]
  show ?thesis
    using AddAll assms by simp
next
  case Evaluate
  show ?thesis
  proof (cases "evaluateQueue s = s")
    case True
    then show ?thesis using Evaluate assms by simp
  next
    case False
    note c = evaluateQueue_cases [OF False]
    from retrieveNextPromise_moves [of s] obtain ps where
      "moves [Dequeued (fst (shift (queue s)))]
         (s\<lparr>queue := snd (shift (queue s)), inProgressCount := inProgressCount s + 1,
             retrieving := retrieving s @ [(fst (shift (queue s)), SizeChangeCalled ps)]\<rparr>)
         (retrieveNextPromise s)"
      by blast
    from moves_proj [OF this] show ?thesis
      using Evaluate c(1) assms by simp
  qed
next
  case (Proceed n)
  show ?thesis
  proof (cases "n < length (retrieving s)")
    case True
    from proceed_moves [OF True] consider
      (called) it p where
        "hooked (s\<lparr>retrieving := (retrieving s)[n := (it, BeforeItemCalled p)]\<rparr>) (proceed n s)"
    | (finished) it p where
        "moves (launch_log it (resolved_value p) s @ [Completed it])
           (s\<lparr>retrieving := take n (retrieving s) @ drop (Suc n) (retrieving s),
               inProgressCount := inProgressCount s - 1\<rparr>) (proceed n s)"
    | (flying) it pr where
        "moves [Launched it]
           (s\<lparr>retrieving := take n (retrieving s) @ drop (Suc n) (retrieving s),
               inflight := inflight s @ [(it, pr)]\<rparr>) (proceed n s)"
      by blast
    then show ?thesis
    proof cases
      case called
      from hooked_proj [OF this] show ?thesis using Proceed assms by simp
    next
      case finished
      from moves_proj [OF this] show ?thesis using Proceed assms by simp
    next
      case flying
      from moves_proj [OF this] show ?thesis using Proceed assms by simp
    qed
  next
    case False
    then show ?thesis using Proceed assms by (simp add: proceed_def)
  qed
next
  case (Settle n)
  show ?thesis
  proof (cases "n < length (inflight s)")
    case True
    from moves_proj [OF settle_moves [OF True]] show ?thesis
      using Settle assms by simp
  next
    case False
    then show ?thesis using Settle assms by (simp add: settle_def)
  qed
next
  case Pause
  from hooked_proj [OF pause_hooked [of s]] show ?thesis
    using Pause assms by simp
next
  case Resume
  show ?thesis
  proof (cases "paused s")
    case True
    from hooked_proj [OF resume_hooked [OF True]]
    show ?thesis
      using Resume assms by simp
  next
    case False
    then show ?thesis using Resume assms by (simp add: resume_def)
  qed
next
  case Clear
  then show ?thesis using assms by simp
next
  case (On trigger cb)
  then show ?thesis using assms
    by (auto simp: on_def split: callback_arg.splits option.splits if_splits)
qed

lemma run_no_clear:
  "removed (trace s) = dequeued (trace s) \<Longrightarrow> Clear \<notin> set acts
   \<Longrightarrow> removed (trace (run acts s)) = dequeued (trace (run acts s))"
  unfolding run_def
proof (induction acts arbitrary: s)
  case Nil
  then show ?case by simp
next
  case (Cons a acts)
  from exec_no_clear [OF Cons.prems(1), of a] Cons.prems(2) Cons.IH [of "exec a s"]
  show ?case by auto
qed

lemma launched_launch_log:
  "launched (launch_log it r s) = [] \<or> launched (launch_log it r s) = [it]"
  by (simp add: launch_log_def)

lemma exec_in_order:
  assumes "in_order s" and "length (retrieving s) \<le> 1" and "length (retrieving (exec a s)) \<le> 1"
  shows "in_order (exec a s)"
proof -
  from assms(1) obtain D where
    D: "dequeued (trace s) = D @ map fst (retrieving s)" "subseq (launched (trace s)) D"
    unfolding in_order_def by blast
  show ?thesis
  proof (cases a)
    case (Add it)
    show ?thesis
    proof (cases "add it s")
      case (Inl e)
      then show ?thesis using Add assms by simp
    next
      case (Inr s')
      from moves_fields [OF add_moves [OF Inr]] moves_proj [OF add_moves [OF Inr]] show ?thesis
        using Add Inr D by (auto simp: in_order_def)
    qed
  next
    case (AddAll items)
    from moves_fields [OF addAll_moves [of items s]] moves_proj [OF addAll_moves [of items s]]
    show ?thesis
      using AddAll D by (auto simp: in_order_def)
  next
    case Evaluate
    show ?thesis
    proof (cases "evaluateQueue s = s")
      case True
      then show ?thesis using Evaluate assms by simp
    next
      case False
      note c = evaluateQueue_cases [OF False]
      from retrieveNextPromise_moves [of s] obtain ps where
        m: "moves [Dequeued (fst (shift (queue s)))]
           (s\<lparr>queue := snd (shift (queue s)), inProgressCount := inProgressCount s + 1,
               retrieving := retrieving s @ [(fst (shift (queue s)), SizeChangeCalled ps)]\<rparr>)
           (retrieveNextPromise s)"
        by blast
      have r: "retrieving (retrieveNextPromise s)
                 = retrieving s @ [(fst (shift (queue s)), SizeChangeCalled ps)]"
        using moves_fields(11) [OF m] by simp
      then have "retrieving s = []" using assms(3) Evaluate c(1) by simp
      with moves_proj [OF m] r show ?thesis
        using Evaluate c(1) D by (auto simp: in_order_def)
    qed
  next
    case (Proceed n)
    show ?thesis
    proof (cases "n < length (retrieving s)")
      case True
      then obtain x where x: "retrieving s = [x]" "n = 0"
        using assms(2) by (cases "retrieving s") auto
      from proceed_moves [OF True] consider
        (called) it ps p where "retrieving s ! n = (it, SizeChangeCalled ps)"
          "hooked (s\<lparr>retrieving := (retrieving s)[n := (it, BeforeItemCalled p)]\<rparr>) (proceed n s)"
      | (finished) it p where "retrieving s ! n = (it, BeforeItemCalled p)"
          "moves (launch_log it (resolved_value p) s @ [Completed it])
             (s\<lparr>retrieving := take n (retrieving s) @ drop (Suc n) (retrieving s),
                 inProgressCount := inProgressCount s - 1\<rparr>) (proceed n s)"
      | (flying) it p pr where "retrieving s ! n = (it, BeforeItemCalled p)"
          "moves [Launched it]
             (s\<lparr>retrieving := take n (retrieving s) @ drop (Suc n) (retrieving s),
                 inflight := inflight s @ [(it, pr)]\<rparr>) (proceed n s)"
        by blast
      then show ?thesis
      proof cases
        case called
        from hooked_fields [OF called(2)] hooked_proj [OF called(2)]
          map_fst_update [OF True called(1)]
        show ?thesis using Proceed D by (auto simp: in_order_def)
      next
        case finished
        have d: "dequeued (trace (proceed n s)) = D @ [it]"
          using moves_proj(3) [OF finished(2)] D(1) x finished(1) by simp
        have r: "retrieving (proceed n s) = []"
          using moves_fields(11) [OF finished(2)] x by simp
        have "subseq (launched (trace (proceed n s))) (D @ [it])"
          using moves_proj(4) [OF finished(2)] D(2) launched_launch_log [of it "resolved_value p" s]
          by (auto intro: list_emb_prefix list_emb_append_mono)
        with d r show ?thesis using Proceed by (auto simp: in_order_def)
      next
        case flying
        have d: "dequeued (trace (proceed n s)) = D @ [it]"
          using moves_proj(3) [OF flying(2)] D(1) x flying(1) by simp
        have r: "retrieving (proceed n s) = []"
          using moves_fields(11) [OF flying(2)] x by simp
        have "subseq (launched (trace (proceed n s))) (D @ [it])"
          using moves_proj(4) [OF flying(2)] D(2)
          by (auto intro: list_emb_append_mono)
        with d r show ?thesis using Proceed by (auto simp: in_order_def)
      qed
    next
      case False
      then show ?thesis using Proceed assms by (simp add: proceed_def)
    qed
  next
    case (Settle n)
    show ?thesis
    proof (cases "n < length (inflight s)")
      case True
      from moves_fields [OF settle_moves [OF True]] moves_proj [OF settle_moves [OF True]]
      show ?thesis using Settle D by (auto simp: in_order_def)
    next
      case False
      then show ?thesis using Settle assms by (simp add: settle_def)
    qed
  next
    case Pause
    from hooked_fields [OF pause_hooked [of s]] hooked_proj [OF pause_hooked [of s]] show ?thesis
      using Pause D by (auto simp: in_order_def)
  next
    case Resume
    show ?thesis
    proof (cases "paused s")
      case True
      from hooked_fields [OF resume_hooked [OF True]] hooked_proj [OF resume_hooked [OF True]]
      show ?thesis using Resume D by (auto simp: in_order_def)
    next
      case False
      then show ?thesis using Resume assms by (simp add: resume_def)
    qed
  next
    case Clear
    from moves_fields [OF clear_moves [of s]] moves_proj [OF clear_moves [of s]] show ?thesis
      using Clear D by (auto simp: in_order_def)
  next
    case (On trigger cb)
    then show ?thesis using assms(1)
      by (auto simp: on_def in_order_def split: callback_arg.splits option.splits if_splits)
  qed
qed

lemma one_at_a_time_head: "one_at_a_time acts s \<Longrightarrow> length (retrieving s) \<le> 1"
  by (cases acts) simp_all

lemma run_in_order:
  "in_order s \<Longrightarrow> one_at_a_time acts s \<Longrightarrow> in_order (run acts s)"
  unfolding run_def
proof (induction acts arbitrary: s)
  case Nil
  then show ?case by simp
next
  case (Cons a acts)
  from Cons.prems(2) have 1: "length (retrieving s) \<le> 1" and 2: "one_at_a_time acts (exec a s)"
    by simp_all
  from exec_in_order [OF Cons.prems(1) 1 one_at_a_time_head [OF 2]] Cons.IH [OF _ 2]
  show ?case by simp
qed

lemma limit_one_at_a_time:
  "count_ok s \<Longrightarrow> concurrencyLimit s = 1 \<Longrightarrow> one_at_a_time acts s"
proof (induction acts arbitrary: s)
  case Nil
  then show ?case using count_ok_one [of s] by simp
next
  case (Cons a acts)
  from exec_count_ok [OF Cons.prems(1), of a] Cons.prems(2) Cons.IH [of "exec a s"]
    count_ok_one [OF Cons.prems]
  show ?case by simp
qed

lemma in_order_subseq: "in_order s \<Longrightarrow> subseq (launched (trace s)) (dequeued (trace s))"
  unfolding in_order_def by (auto intro: list_emb_prefix)

lemma proceed_launches:
  assumes "n < length (retrieving s)" and "retrieving s ! n = (it, BeforeItemCalled p)"
  shows "launched (trace (proceed n s)) = launched (trace s) @ launched (launch_log it (resolved_value p) s)"
    and "dequeued (trace (proceed n s)) = dequeued (trace s)"
    and "retrieving (proceed n s) = take n (retrieving s) @ drop (Suc n) (retrieving s)"
proof -
  from proceed_moves [OF assms(1)] assms(2) consider
    (finished)
      "moves (launch_log it (resolved_value p) s @ [Completed it])
         (s\<lparr>retrieving := take n (retrieving s) @ drop (Suc n) (retrieving s),
             inProgressCount := inProgressCount s - 1\<rparr>) (proceed n s)"
  | (flying) pr where "launch_log it (resolved_value p) s = [Launched it]"
      "moves [Launched it]
         (s\<lparr>retrieving := take n (retrieving s) @ drop (Suc n) (retrieving s),
             inflight := inflight s @ [(it, pr)]\<rparr>) (proceed n s)"
    by auto
  then have "launched (trace (proceed n s))
               = launched (trace s) @ launched (launch_log it (resolved_value p) s)
             \<and> dequeued (trace (proceed n s)) = dequeued (trace s)
             \<and> retrieving (proceed n s) = take n (retrieving s) @ drop (Suc n) (retrieving s)"
  proof cases
    case finished
    from moves_proj [OF this] moves_fields(11) [OF this] show ?thesis by simp
  next
    case flying
    from moves_proj [OF flying(2)] moves_fields(11) [OF flying(2)] flying(1) show ?thesis by simp
  qed
  then show "launched (trace (proceed n s))
               = launched (trace s) @ launched (launch_log it (resolved_value p) s)"
    and "dequeued (trace (proceed n s)) = dequeued (trace s)"
    and "retrieving (proceed n s) = take n (retrieving s) @ drop (Suc n) (retrieving s)"
    by simp_all
qed

section \<open>The concurrency limit\<close>

lemma run_inProgressCount:
  assumes "new_WorkQueue given = Inr s0"
  shows "inProgressCount (run acts s0)
           = int (length (retrieving (run acts s0))) + int (length (inflight (run acts s0)))"
    and "of_int (inProgressCount (run acts s0)) < concurrencyLimit s0 + 1"
    and "concurrencyLimit (run acts s0) = concurrencyLimit s0"
    and "evaluateQueue (run acts s0) \<noteq> run acts s0
         \<Longrightarrow> of_int (inProgressCount (run acts s0)) < concurrencyLimit s0"
    and "concurrencyLimit s0 = of_int k \<Longrightarrow> inProgressCount (run acts s0) \<le> k"
proof -
  from run_count_ok [OF new_WorkQueue_count_ok [OF assms], of acts]
  have c: "count_ok (run acts s0)" and l: "concurrencyLimit (run acts s0) = concurrencyLimit s0"
    by simp_all
  show "inProgressCount (run acts s0)
           = int (length (retrieving (run acts s0))) + int (length (inflight (run acts s0)))"
    using c by (simp add: count_ok_def)
  show lt: "of_int (inProgressCount (run acts s0)) < concurrencyLimit s0 + 1"
    using c l by (simp add: count_ok_def)
  show "concurrencyLimit (run acts s0) = concurrencyLimit s0" by (rule l)
  show "evaluateQueue (run acts s0) \<noteq> run acts s0
         \<Longrightarrow> of_int (inProgressCount (run acts s0)) < concurrencyLimit s0"
    using evaluateQueue_cases(4) [of "run acts s0"] l by simp
  assume "concurrencyLimit s0 = of_int k"
  with lt have "(of_int (inProgressCount (run acts s0)) :: rat) < of_int (k + 1)" by simp
  then have "inProgressCount (run acts s0) < k + 1" by (simp only: of_int_less_iff)
  then show "inProgressCount (run acts s0) \<le> k" by simp
qed

text \<open>
  C1. The constructor takes the limit 1.5: it is a number and it is not below 1. Two
  tasks are added and \<open>_evaluateQueue\<close> runs twice. The second time the counter is 1 and
  the test \<open>1.5 <= 1\<close> fails, so a second item is taken: the queue is neither halted nor
  paused, two tasks are in flight, and the counter is 2, above the limit. Under a whole
  limit the counter never passes it (\<open>run_inProgressCount\<close>).
\<close>

theorem C1_inProgressCount_exceeds_fractional_limit:
  "new_WorkQueue (Some (limit_only (3 / 2))) = Inr (fresh_queue (3 / 2) None)
   \<and> \<not> halted (run fractional_limit_run (fresh_queue (3 / 2) None))
   \<and> \<not> paused (run fractional_limit_run (fresh_queue (3 / 2) None))
   \<and> concurrencyLimit (run fractional_limit_run (fresh_queue (3 / 2) None)) = 3 / 2
   \<and> inProgressCount (run fractional_limit_run (fresh_queue (3 / 2) None)) = 2
   \<and> map fst (inflight (run fractional_limit_run (fresh_queue (3 / 2) None))) = [task 1, task 2]"
proof -
  have "new_WorkQueue (Some (limit_only (3 / 2))) = Inr (fresh_queue (3 / 2) None)"
    by (simp add: new_WorkQueue_def validateOptions_def limit_only_def fresh_queue_def)
  moreover have "\<not> halted (run fractional_limit_run (fresh_queue (3 / 2) None))" by code_simp
  moreover have "\<not> paused (run fractional_limit_run (fresh_queue (3 / 2) None))" by code_simp
  moreover have "concurrencyLimit (run fractional_limit_run (fresh_queue (3 / 2) None)) = 3 / 2"
    by code_simp
  moreover have "inProgressCount (run fractional_limit_run (fresh_queue (3 / 2) None)) = 2"
    by code_simp
  moreover have "map fst (inflight (run fractional_limit_run (fresh_queue (3 / 2) None)))
                   = [task 1, task 2]"
    by code_simp
  ultimately show ?thesis by blast
qed

lemma new_WorkQueue_limit_only:
  "1 \<le> k \<Longrightarrow> new_WorkQueue (Some (limit_only k)) = Inr (fresh_queue k None)"
  by (simp add: new_WorkQueue_def validateOptions_def limit_only_def fresh_queue_def)


section \<open>Order of admission and completion\<close>

text \<open>
  C2. In every state of a run: the items that entered the queue through \<open>add\<close> and
  \<open>addAll\<close>, in that order, are the items that left it followed by the items still
  queued, so items leave from the front; when the run does not call \<open>clear\<close> every
  item that left was taken for processing. For an item that was taken,
  \<open>beforeItemProcessed\<close> is called in the turn in which the promises of the queue-size
  callbacks settle, and the item is launched in the turn in which the promise of
  \<open>beforeItemProcessed\<close> settles, unless the callback withholds it or the item has
  nothing to run it. When no two items ever wait for their callbacks at the same time,
  items are launched in the order in which they were taken.
  With a limit of one that is always so, and the items taken are the finished items, in
  the order in which they finished, followed by the at most one item waiting or in flight.
\<close>

theorem C2_admission_is_fifo:
  assumes "new_WorkQueue given = Inr s0"
  shows "enqueued (trace (run acts s0)) = removed (trace (run acts s0)) @ queue (run acts s0)
       \<and> (Clear \<notin> set acts \<longrightarrow> removed (trace (run acts s0)) = dequeued (trace (run acts s0)))
       \<and> (m < length (retrieving t) \<and> retrieving t ! m = (it', SizeChangeCalled ps)
          \<longrightarrow> (\<exists>q. retrieving (proceed m t) = (retrieving t)[m := (it', BeforeItemCalled q)]
                  \<and> resolved_value q = before_answer t)
             \<and> launched (trace (proceed m t)) = launched (trace t)
             \<and> dequeued (trace (proceed m t)) = dequeued (trace t))
       \<and> (n < length (retrieving s) \<and> retrieving s ! n = (it, BeforeItemCalled p)
            \<and> resolved_value p \<notin> {BEFORE_SKIP, BEFORE_HALT, JBool False}
            \<and> (is_function it \<or> processor s \<noteq> None)
          \<longrightarrow> launched (trace (proceed n s)) = launched (trace s) @ [it]
             \<and> dequeued (trace (proceed n s)) = dequeued (trace s)
             \<and> retrieving (proceed n s) = take n (retrieving s) @ drop (Suc n) (retrieving s))
       \<and> (one_at_a_time acts s0
          \<longrightarrow> subseq (launched (trace (run acts s0))) (dequeued (trace (run acts s0))))
       \<and> (concurrencyLimit s0 = 1 \<longrightarrow>
            one_at_a_time acts s0
            \<and> subseq (launched (trace (run acts s0))) (dequeued (trace (run acts s0)))
            \<and> dequeued (trace (run acts s0))
                = completed (trace (run acts s0)) @ map fst (retrieving (run acts s0))
                    @ map fst (inflight (run acts s0))
            \<and> length (retrieving (run acts s0)) + length (inflight (run acts s0)) \<le> 1)"
proof -
  note f = new_WorkQueue_fresh [OF assms]
  have c: "count_ok s0" by (rule new_WorkQueue_count_ok [OF assms])
  have "fifo_ok s0" using f by (simp add: fifo_ok_def)
  note ff = run_fifo_ok [OF this c, of acts] and cc = run_count_ok [OF c, of acts]
  have io: "in_order s0" using f by (simp add: in_order_def)
  have 1: "enqueued (trace (run acts s0)) = removed (trace (run acts s0)) @ queue (run acts s0)"
    using ff by (simp add: fifo_ok_def)
  have 2: "Clear \<notin> set acts \<longrightarrow> removed (trace (run acts s0)) = dequeued (trace (run acts s0))"
    using run_no_clear [of s0 acts] f by simp
  have 0: "m < length (retrieving t) \<and> retrieving t ! m = (it', SizeChangeCalled ps)
          \<longrightarrow> (\<exists>q. retrieving (proceed m t) = (retrieving t)[m := (it', BeforeItemCalled q)]
                  \<and> resolved_value q = before_answer t)
             \<and> launched (trace (proceed m t)) = launched (trace t)
             \<and> dequeued (trace (proceed m t)) = dequeued (trace t)"
  proof
    assume a: "m < length (retrieving t) \<and> retrieving t ! m = (it', SizeChangeCalled ps)"
    then obtain q where
      h: "hooked (t\<lparr>retrieving := (retrieving t)[m := (it', BeforeItemCalled q)]\<rparr>) (proceed m t)"
      and rv: "resolved_value q = before_answer t"
      using proceed_sizeChanged [of m t it' ps] by blast
    from hooked_fields(11) [OF h] hooked_proj(3,4) [OF h] rv
    show "(\<exists>q. retrieving (proceed m t) = (retrieving t)[m := (it', BeforeItemCalled q)]
                  \<and> resolved_value q = before_answer t)
             \<and> launched (trace (proceed m t)) = launched (trace t)
             \<and> dequeued (trace (proceed m t)) = dequeued (trace t)"
      by auto
  qed
  have 3: "n < length (retrieving s) \<and> retrieving s ! n = (it, BeforeItemCalled p)
            \<and> resolved_value p \<notin> {BEFORE_SKIP, BEFORE_HALT, JBool False}
            \<and> (is_function it \<or> processor s \<noteq> None)
          \<longrightarrow> launched (trace (proceed n s)) = launched (trace s) @ [it]
             \<and> dequeued (trace (proceed n s)) = dequeued (trace s)
             \<and> retrieving (proceed n s) = take n (retrieving s) @ drop (Suc n) (retrieving s)"
    using proceed_launches [of n s it p] by (auto simp: launch_log_def withheld_def)
  have 4: "one_at_a_time acts s0
          \<longrightarrow> subseq (launched (trace (run acts s0))) (dequeued (trace (run acts s0)))"
    using run_in_order [OF io] in_order_subseq by blast
  have 5: "concurrencyLimit s0 = 1 \<longrightarrow>
            one_at_a_time acts s0
            \<and> subseq (launched (trace (run acts s0))) (dequeued (trace (run acts s0)))
            \<and> dequeued (trace (run acts s0))
                = completed (trace (run acts s0)) @ map fst (retrieving (run acts s0))
                    @ map fst (inflight (run acts s0))
            \<and> length (retrieving (run acts s0)) + length (inflight (run acts s0)) \<le> 1"
  proof
    assume k: "concurrencyLimit s0 = 1"
    have o: "one_at_a_time acts s0" by (rule limit_one_at_a_time [OF c k])
    with 4 have s: "subseq (launched (trace (run acts s0))) (dequeued (trace (run acts s0)))"
      by blast
    have d: "dequeued (trace (run acts s0))
                = completed (trace (run acts s0)) @ map fst (retrieving (run acts s0))
                    @ map fst (inflight (run acts s0))"
      using ff cc k by (simp add: fifo_ok_def)
    have l: "length (retrieving (run acts s0)) + length (inflight (run acts s0)) \<le> 1"
      using count_ok_one [of "run acts s0"] cc k by simp
    from o s d l show "one_at_a_time acts s0
            \<and> subseq (launched (trace (run acts s0))) (dequeued (trace (run acts s0)))
            \<and> dequeued (trace (run acts s0))
                = completed (trace (run acts s0)) @ map fst (retrieving (run acts s0))
                    @ map fst (inflight (run acts s0))
            \<and> length (retrieving (run acts s0)) + length (inflight (run acts s0)) \<le> 1"
      by blast
  qed
  from 0 1 2 3 4 5 show ?thesis by blast
qed

text \<open>
  C2 with launches in the order of enqueuing does not hold under a limit above one: with
  a limit of 2 and a \<open>beforeItemProcessed\<close> callback that returns a promise, the first
  item is taken and waits for the promise of its callback, the second item is taken on
  the next turn of \<open>_evaluateQueue\<close>, and the promise of the second call settles
  first. The second task is called before the first.
\<close>

theorem C2_launch_order_can_differ:
  "new_WorkQueue (Some (limit_only 2)) = Inr (fresh_queue 2 None)
   \<and> enqueued (trace (run slow_first_hook_run (fresh_queue 2 None))) = [task 1, task 2]
   \<and> dequeued (trace (run slow_first_hook_run (fresh_queue 2 None))) = [task 1, task 2]
   \<and> launched (trace (run slow_first_hook_run (fresh_queue 2 None))) = [task 2, task 1]"
proof -
  have "new_WorkQueue (Some (limit_only 2)) = Inr (fresh_queue 2 None)"
    by (simp add: new_WorkQueue_limit_only)
  moreover have "enqueued (trace (run slow_first_hook_run (fresh_queue 2 None))) = [task 1, task 2]"
    by code_simp
  moreover have "dequeued (trace (run slow_first_hook_run (fresh_queue 2 None))) = [task 1, task 2]"
    by code_simp
  moreover have "launched (trace (run slow_first_hook_run (fresh_queue 2 None))) = [task 2, task 1]"
    by code_simp
  ultimately show ?thesis by blast
qed

theorem C2_admission_is_fifo_witness:
  "new_WorkQueue (Some (limit_only 1)) = Inr (fresh_queue 1 None)
   \<and> Clear \<notin> set ([Add (task 1), AddAll [task 2, task 3]] @ take_item @ [Settle 0, Evaluate, Proceed 0])
   \<and> concurrencyLimit (fresh_queue 1 None) = 1
   \<and> one_at_a_time ([Add (task 1), AddAll [task 2, task 3]] @ take_item @ [Settle 0, Evaluate, Proceed 0])
        (fresh_queue 1 None)
   \<and> enqueued (trace (run ([Add (task 1), AddAll [task 2, task 3]] @ take_item @ [Settle 0, Evaluate, Proceed 0])
                          (fresh_queue 1 None)))
       = [task 1, task 2] @ [task 3]
   \<and> dequeued (trace (run ([Add (task 1), AddAll [task 2, task 3]] @ take_item @ [Settle 0, Evaluate, Proceed 0])
                          (fresh_queue 1 None)))
       = [task 1, task 2]
   \<and> completed (trace (run ([Add (task 1), AddAll [task 2, task 3]] @ take_item @ [Settle 0, Evaluate, Proceed 0])
                           (fresh_queue 1 None)))
       = [task 1]
   \<and> map fst (retrieving (run ([Add (task 1), AddAll [task 2, task 3]] @ take_item @ [Settle 0, Evaluate, Proceed 0])
                             (fresh_queue 1 None)))
       = [task 2]
   \<and> subseq (launched (trace (run ([Add (task 1), AddAll [task 2, task 3]] @ take_item @ [Settle 0, Evaluate, Proceed 0])
                                 (fresh_queue 1 None))))
       [task 1, task 2]
   \<and> launched (trace (proceed 0 (run ([Add (task 1), AddAll [task 2, task 3]] @ take_item @ [Settle 0, Evaluate, Proceed 0])
                                   (fresh_queue 1 None))))
       = [task 1, task 2]"
proof -
  let ?acts = "[Add (task 1), AddAll [task 2, task 3]] @ take_item @ [Settle 0, Evaluate, Proceed 0]"
  let ?s = "run ?acts (fresh_queue 1 None)"
  have h: "new_WorkQueue (Some (limit_only 1)) = Inr (fresh_queue 1 None)"
    by (simp add: new_WorkQueue_limit_only)
  have k: "concurrencyLimit (fresh_queue 1 None) = 1" by (simp add: fresh_queue_def)
  have nc: "Clear \<notin> set ?acts" by (simp add: take_item_def)
  have d: "dequeued (trace ?s) = [task 1, task 2]" by code_simp
  have q: "queue ?s = [task 3]" by code_simp
  have i: "inflight ?s = []" by code_simp
  have l: "launched (trace ?s) = [task 1]" by code_simp
  have r: "retrieving ?s = [(task 2, BeforeItemCalled Settled)]" by code_simp
  have w: "0 < length (retrieving ?s) \<and> retrieving ?s ! 0 = (task 2, BeforeItemCalled Settled)
           \<and> resolved_value Settled \<notin> {BEFORE_SKIP, BEFORE_HALT, JBool False}
           \<and> (is_function (task 2) \<or> processor ?s \<noteq> None)"
    using r by (simp add: BEFORE_SKIP_def BEFORE_HALT_def task_def)
  let ?e = "run ([Add (task 1), AddAll [task 2, task 3]] @ take_item @ [Settle 0, Evaluate])
              (fresh_queue 1 None)"
  have e: "retrieving ?e = [(task 2, SizeChangeCalled [Settled])]" "before_answer ?e = JUndefined"
    "launched (trace ?e) = [task 1]" "dequeued (trace ?e) = [task 1, task 2]"
    by code_simp+
  have pe: "proceed 0 ?e = ?s" by (simp add: run_def)
  have en: "enqueued (trace ?s) = [task 1, task 2, task 3]" "removed (trace ?s) = [task 1, task 2]"
    "completed (trace ?s) = [task 1]"
    by code_simp+
  have la: "launched (trace (proceed 0 ?s)) = [task 1, task 2]" by code_simp
  from C2_admission_is_fifo
         [OF h, where acts = ?acts and n = 0 and s = ?s and it = "task 2" and p = Settled
            and m = 0 and t = ?e and it' = "task 2" and ps = "[Settled]"]
  show ?thesis using h k nc d q i l r w e pe en la by simp
qed

section \<open>Halting\<close>

lemma exec_halted:
  assumes "halted s"
  shows "halted (exec a s) \<and> dequeued (trace (exec a s)) = dequeued (trace s)
         \<and> calls_of EvHalted (trace (exec a s)) = calls_of EvHalted (trace s)"
proof (cases a)
  case (Add it)
  show ?thesis
  proof (cases "add it s")
    case (Inl e)
    then show ?thesis using Add assms by simp
  next
    case (Inr s')
    from moves_fields [OF add_moves [OF Inr]] moves_proj [OF add_moves [OF Inr]] show ?thesis
      using Add Inr assms by simp
  qed
next
  case (AddAll items)
  from moves_fields [OF addAll_moves [of items s]] moves_proj [OF addAll_moves [of items s]]
  show ?thesis using AddAll assms by simp
next
  case Evaluate
  then show ?thesis using assms by (simp add: evaluateQueue_def)
next
  case (Proceed n)
  show ?thesis
  proof (cases "n < length (retrieving s)")
    case True
    from proceed_moves [OF True] consider
      (called) it p where
        "hooked (s\<lparr>retrieving := (retrieving s)[n := (it, BeforeItemCalled p)]\<rparr>) (proceed n s)"
    | (finished) it p where
        "moves (launch_log it (resolved_value p) s @ [Completed it])
           (s\<lparr>retrieving := take n (retrieving s) @ drop (Suc n) (retrieving s),
               inProgressCount := inProgressCount s - 1\<rparr>) (proceed n s)"
    | (flying) it pr where
        "moves [Launched it]
           (s\<lparr>retrieving := take n (retrieving s) @ drop (Suc n) (retrieving s),
               inflight := inflight s @ [(it, pr)]\<rparr>) (proceed n s)"
      by blast
    then show ?thesis
    proof cases
      case called
      from hooked_fields [OF this] hooked_proj [OF this] show ?thesis
        using Proceed assms by simp
    next
      case finished
      from moves_fields [OF this] moves_proj [OF this] show ?thesis
        using Proceed assms by simp
    next
      case flying
      from moves_fields [OF this] moves_proj [OF this] show ?thesis
        using Proceed assms by simp
    qed
  next
    case False
    then show ?thesis using Proceed assms by (simp add: proceed_def)
  qed
next
  case (Settle n)
  show ?thesis
  proof (cases "n < length (inflight s)")
    case True
    from moves_fields [OF settle_moves [OF True]] moves_proj [OF settle_moves [OF True]]
    show ?thesis using Settle assms by simp
  next
    case False
    then show ?thesis using Settle assms by (simp add: settle_def)
  qed
next
  case Pause
  from hooked_fields [OF pause_hooked [of s]] hooked_proj [OF pause_hooked [of s]] show ?thesis
    using Pause assms by simp
next
  case Resume
  show ?thesis
  proof (cases "paused s")
    case True
    from hooked_fields [OF resume_hooked [OF True]] hooked_proj [OF resume_hooked [OF True]]
    show ?thesis using Resume assms by simp
  next
    case False
    then show ?thesis using Resume assms by (simp add: resume_def)
  qed
next
  case Clear
  from moves_fields [OF clear_moves [of s]] moves_proj [OF clear_moves [of s]] show ?thesis
    using Clear assms by simp
next
  case (On trigger cb)
  then show ?thesis using assms
    by (auto simp: on_def split: callback_arg.splits option.splits if_splits)
qed

lemma run_halted:
  "halted s \<Longrightarrow> halted (run acts s) \<and> dequeued (trace (run acts s)) = dequeued (trace s)
     \<and> calls_of EvHalted (trace (run acts s)) = calls_of EvHalted (trace s)"
  unfolding run_def
proof (induction acts arbitrary: s)
  case Nil
  then show ?case by simp
next
  case (Cons a acts)
  from exec_halted [OF Cons.prems, of a] Cons.IH [of "exec a s"]
  show ?case by simp
qed

lemma exec_halted_once:
  assumes "calls_of EvHalted (trace s) \<le> (if halted s then 1 else 0)"
  shows "calls_of EvHalted (trace (exec a s)) \<le> (if halted (exec a s) then 1 else 0)"
proof (cases "halted s")
  case True
  then show ?thesis using exec_halted [OF True, of a] assms by simp
next
  case False
  show ?thesis
  proof (cases a)
    case (Add it)
    show ?thesis
    proof (cases "add it s")
      case (Inl e)
      then show ?thesis using Add assms by simp
    next
      case (Inr s')
      from moves_fields [OF add_moves [OF Inr]] show ?thesis
        using Add Inr assms False by simp
    qed
  next
    case (AddAll items)
    from moves_fields [OF addAll_moves [of items s]]
    show ?thesis using AddAll assms False by simp
  next
    case Evaluate
    show ?thesis
    proof (cases "evaluateQueue s = s")
      case True
      then show ?thesis using Evaluate assms by simp
    next
      case F: False
      note c = evaluateQueue_cases [OF F]
      from retrieveNextPromise_moves [of s] obtain ps where
        "moves [Dequeued (fst (shift (queue s)))]
           (s\<lparr>queue := snd (shift (queue s)), inProgressCount := inProgressCount s + 1,
               retrieving := retrieving s @ [(fst (shift (queue s)), SizeChangeCalled ps)]\<rparr>)
           (retrieveNextPromise s)"
        by blast
      from moves_fields [OF this] show ?thesis
        using Evaluate c(1) assms False by simp
    qed
  next
    case (Proceed n)
    show ?thesis
    proof (cases "n < length (retrieving s)")
      case True
      from proceed_moves [OF True] consider
        (called) it p where
          "hooked (s\<lparr>retrieving := (retrieving s)[n := (it, BeforeItemCalled p)]\<rparr>) (proceed n s)"
      | (finished) it p where
          "moves (launch_log it (resolved_value p) s @ [Completed it])
             (s\<lparr>retrieving := take n (retrieving s) @ drop (Suc n) (retrieving s),
                 inProgressCount := inProgressCount s - 1\<rparr>) (proceed n s)"
      | (flying) it pr where
          "moves [Launched it]
             (s\<lparr>retrieving := take n (retrieving s) @ drop (Suc n) (retrieving s),
                 inflight := inflight s @ [(it, pr)]\<rparr>) (proceed n s)"
        by blast
      then show ?thesis
      proof cases
        case called
        from hooked_fields [OF this] show ?thesis
          using Proceed assms False by simp
      next
        case finished
        from moves_fields [OF this] show ?thesis
          using Proceed assms False by simp
      next
        case flying
        from moves_fields [OF this] show ?thesis
          using Proceed assms False by simp
      qed
    next
      case F: False
      then show ?thesis using Proceed assms by (simp add: proceed_def)
    qed
  next
    case (Settle n)
    show ?thesis
    proof (cases "n < length (inflight s)")
      case True
      from moves_fields [OF settle_moves [OF True]]
      show ?thesis using Settle assms False by simp
    next
      case F: False
      then show ?thesis using Settle assms by (simp add: settle_def)
    qed
  next
    case Pause
    from hooked_fields [OF pause_hooked [of s]] show ?thesis
      using Pause assms False by simp
  next
    case Resume
    show ?thesis
    proof (cases "paused s")
      case True
      from hooked_fields [OF resume_hooked [OF True]]
      show ?thesis using Resume assms False by simp
    next
      case F: False
      then show ?thesis using Resume assms by (simp add: resume_def)
    qed
  next
    case Clear
    from moves_fields [OF clear_moves [of s]] show ?thesis
      using Clear assms False by simp
  next
    case (On trigger cb)
    then show ?thesis using assms
      by (auto simp: on_def split: callback_arg.splits option.splits if_splits)
  qed
qed

lemma run_halted_once:
  "calls_of EvHalted (trace s) \<le> (if halted s then 1 else 0)
   \<Longrightarrow> calls_of EvHalted (trace (run acts s)) \<le> (if halted (run acts s) then 1 else 0)"
  unfolding run_def
proof (induction acts arbitrary: s)
  case Nil
  then show ?case by simp
next
  case (Cons a acts)
  from exec_halted_once [OF Cons.prems, of a] Cons.IH [of "exec a s"]
  show ?case by simp
qed

text \<open>
  C4. Halting is idempotent. In a halted queue \<open>_halt\<close> returns at once: the state is
  unchanged and no callback is called; the queue stays halted whatever is done to it,
  and the halted callback is never called again. Where the halted callback and the error
  callback both throw whenever they are called, halting a queue that is not halted sets
  the flag, calls the halted callback once, passes its failure (tagged CALLBACK) to the
  error callback once, and ends there: the failure of the error callback asks for a halt
  that does nothing. Over the whole life of a queue the halted callback is called at most
  once. That \<open>await\<close> is a total function is the absence of a loop between \<open>_halt\<close>
  and \<open>_onError\<close>.
\<close>

theorem C4_halt_idempotent:
  "(halted s \<longrightarrow> halt r s = (s, Settled) \<and> finish (halt r) s = s \<and> halted (run acts s)
        \<and> calls_of EvHalted (trace (run acts s)) = calls_of EvHalted (trace s))
   \<and> (\<not> halted s \<and> callbacks s EvHalted = Some hcb \<and> callbacks s EvError = Some ecb
        \<and> (\<forall>n a. \<exists>x. hcb n a = Throws x) \<and> (\<forall>n a. \<exists>x. ecb n a = Throws x)
      \<longrightarrow> (\<exists>x. hcb (calls_of EvHalted (trace s)) r = Throws x
             \<and> finish (halt r) s
                 = s\<lparr>halted := True,
                     trace := trace s @ [Called EvHalted r, Called EvError (tag_error CALLBACK x)]\<rparr>))
   \<and> (new_WorkQueue given = Inr s0 \<longrightarrow> calls_of EvHalted (trace (run acts s0)) \<le> 1)"
proof (intro conjI impI)
  assume "halted s"
  then show "halt r s = (s, Settled)" by (simp add: halt_def)
next
  assume "halted s"
  then show "finish (halt r) s = s" by (simp add: halt_def finish_def)
next
  assume "halted s"
  then show "halted (run acts s)" using run_halted by blast
next
  assume "halted s"
  then show "calls_of EvHalted (trace (run acts s)) = calls_of EvHalted (trace s)"
    using run_halted by blast
next
  assume a: "\<not> halted s \<and> callbacks s EvHalted = Some hcb \<and> callbacks s EvError = Some ecb
        \<and> (\<forall>n a. \<exists>x. hcb n a = Throws x) \<and> (\<forall>n a. \<exists>x. ecb n a = Throws x)"
  then obtain x where x: "hcb (calls_of EvHalted (trace s)) r = Throws x" by blast
  let ?e = "tag_error CALLBACK x"
  from a obtain y where
    y: "ecb (calls_of EvError (trace s @ [Called EvHalted r])) ?e = Throws y" by blast
  have "finish (halt r) s
          = s\<lparr>halted := True, trace := trace s @ [Called EvHalted r, Called EvError ?e]\<rparr>"
    using a x y
    by (simp add: finish_def halt_def onHalted_def onError_def invoke_def calls_of_def)
  with x show "\<exists>x. hcb (calls_of EvHalted (trace s)) r = Throws x
             \<and> finish (halt r) s
                 = s\<lparr>halted := True,
                     trace := trace s @ [Called EvHalted r, Called EvError (tag_error CALLBACK x)]\<rparr>"
    by blast
next
  assume "new_WorkQueue given = Inr s0"
  from new_WorkQueue_fresh [OF this] have "calls_of EvHalted (trace s0) \<le> (if halted s0 then 1 else 0)"
    by simp
  from run_halted_once [OF this, of acts] show "calls_of EvHalted (trace (run acts s0)) \<le> 1"
    by (simp split: if_splits)
qed

theorem C4_halt_idempotent_witness:
  "\<not> halted double_fault
   \<and> halted (finish (halt (JHaltData PROCESSRETVAL JUndefined JUndefined)) double_fault)
   \<and> trace (finish (halt (JHaltData PROCESSRETVAL JUndefined JUndefined)) double_fault)
       = [Called EvHalted (JHaltData PROCESSRETVAL JUndefined JUndefined),
          Called EvError (JError (JStr ''error from halted callback'') (Some CALLBACK))]
   \<and> finish (halt (JHaltData CALLBACKRETVAL JUndefined JUndefined))
        (finish (halt (JHaltData PROCESSRETVAL JUndefined JUndefined)) double_fault)
       = finish (halt (JHaltData PROCESSRETVAL JUndefined JUndefined)) double_fault
   \<and> new_WorkQueue (Some (limit_only 1)) = Inr (fresh_queue 1 None)
   \<and> calls_of EvHalted (trace (run [Add (task 1)] (fresh_queue 1 None))) \<le> 1"
proof -
  let ?r = "JHaltData PROCESSRETVAL JUndefined JUndefined"
  let ?h = "\<lambda>(n::nat) (a::jsval). Throws (JStr ''error from halted callback'')"
  let ?e = "\<lambda>(n::nat) (a::jsval). Throws (JStr ''error from error callback'')"
  have nh: "\<not> halted double_fault" by code_simp
  have cbs: "callbacks double_fault EvHalted = Some ?h" "callbacks double_fault EvError = Some ?e"
    by (simp_all add: double_fault_def run_def on_def event_of_def fresh_queue_def)
  have tr0: "trace double_fault = []"
    by (simp add: double_fault_def run_def on_def event_of_def fresh_queue_def)
  have fresh: "new_WorkQueue (Some (limit_only 1)) = Inr (fresh_queue 1 None)"
    by (simp add: new_WorkQueue_limit_only)
  note C4 = C4_halt_idempotent [of _ _ _ ?h ?e "Some (limit_only 1)" "fresh_queue 1 None"]
  from C4 [of double_fault ?r "[Add (task 1)]"] nh cbs
  have f: "finish (halt ?r) double_fault
        = double_fault\<lparr>halted := True,
            trace := trace double_fault
              @ [Called EvHalted ?r, Called EvError (tag_error CALLBACK (JStr ''error from halted callback''))]\<rparr>"
    by auto
  then have h2: "halted (finish (halt ?r) double_fault)" by simp
  from C4 [of "finish (halt ?r) double_fault" "JHaltData CALLBACKRETVAL JUndefined JUndefined" "[Add (task 1)]"] h2
  have idem: "finish (halt (JHaltData CALLBACKRETVAL JUndefined JUndefined)) (finish (halt ?r) double_fault)
        = finish (halt ?r) double_fault"
    by blast
  from C4 [of double_fault ?r "[Add (task 1)]"] fresh
  have once: "calls_of EvHalted (trace (run [Add (task 1)] (fresh_queue 1 None))) \<le> 1" by blast
  show ?thesis
    using nh h2 f idem fresh once tr0
    by (simp add: tag_error_def new_WorkQueueError_def)
qed

section \<open>Validation of the options\<close>

text \<open>
  C10. The constructor checks its options at once. It throws a \<open>WorkQueueError\<close> with
  source BADREQUEST when the concurrency limit is not numeric, when it is less than 1, or
  when a processor is given that is not a function. In every other case it returns a
  queue that is empty, has nothing in progress and no callbacks, is neither halted nor
  paused, keeps the processor, and whose limit is the given one, or 1 when none was
  given. An error built without a source has source INTERNAL.
\<close>

theorem C10_constructor_validates_options:
  "((opt_concurrencyLimit opts = Some NaN
       \<or> (\<exists>k. opt_concurrencyLimit opts = Some (Num k) \<and> k < 1)
       \<or> (\<exists>v. opt_processor opts = ProcValue v \<and> v \<noteq> JUndefined \<and> v \<noteq> JNull))
      \<longrightarrow> (\<exists>m. new_WorkQueue (Some opts) = Inl (JError m (Some BADREQUEST))))
   \<and> (\<not> (opt_concurrencyLimit opts = Some NaN
          \<or> (\<exists>k. opt_concurrencyLimit opts = Some (Num k) \<and> k < 1)
          \<or> (\<exists>v. opt_processor opts = ProcValue v \<and> v \<noteq> JUndefined \<and> v \<noteq> JNull))
      \<longrightarrow> (\<exists>s0. new_WorkQueue (Some opts) = Inr s0
            \<and> queue s0 = [] \<and> inProgressCount s0 = 0 \<and> callbacks s0 = (\<lambda>ev. None)
            \<and> \<not> halted s0 \<and> \<not> paused s0
            \<and> concurrencyLimit s0
                = (case opt_concurrencyLimit opts of Some (Num k) \<Rightarrow> k | _ \<Rightarrow> 1)
            \<and> processor s0
                = (case opt_processor opts of ProcFunction f \<Rightarrow> Some f | ProcValue v \<Rightarrow> None)))
   \<and> (\<exists>s0. new_WorkQueue None = Inr s0
         \<and> queue s0 = [] \<and> inProgressCount s0 = 0 \<and> callbacks s0 = (\<lambda>ev. None)
         \<and> \<not> halted s0 \<and> \<not> paused s0 \<and> concurrencyLimit s0 = 1 \<and> processor s0 = None)
   \<and> new_WorkQueueError m None = JError m (Some INTERNAL)"
proof (intro conjI impI)
  assume "opt_concurrencyLimit opts = Some NaN
       \<or> (\<exists>k. opt_concurrencyLimit opts = Some (Num k) \<and> k < 1)
       \<or> (\<exists>v. opt_processor opts = ProcValue v \<and> v \<noteq> JUndefined \<and> v \<noteq> JNull)"
  then show "\<exists>m. new_WorkQueue (Some opts) = Inl (JError m (Some BADREQUEST))"
    by (auto simp: new_WorkQueue_def validateOptions_def Let_def new_WorkQueueError_def
                   DEFAULT_CONCURRENCY_LIMIT_def
             split: option.splits number.splits processor_arg.splits)
next
  assume "\<not> (opt_concurrencyLimit opts = Some NaN
          \<or> (\<exists>k. opt_concurrencyLimit opts = Some (Num k) \<and> k < 1)
          \<or> (\<exists>v. opt_processor opts = ProcValue v \<and> v \<noteq> JUndefined \<and> v \<noteq> JNull))"
  then show "\<exists>s0. new_WorkQueue (Some opts) = Inr s0
            \<and> queue s0 = [] \<and> inProgressCount s0 = 0 \<and> callbacks s0 = (\<lambda>ev. None)
            \<and> \<not> halted s0 \<and> \<not> paused s0
            \<and> concurrencyLimit s0
                = (case opt_concurrencyLimit opts of Some (Num k) \<Rightarrow> k | _ \<Rightarrow> 1)
            \<and> processor s0
                = (case opt_processor opts of ProcFunction f \<Rightarrow> Some f | ProcValue v \<Rightarrow> None)"
    by (auto simp: new_WorkQueue_def validateOptions_def Let_def DEFAULT_CONCURRENCY_LIMIT_def
             split: option.splits number.splits processor_arg.splits)
next
  show "\<exists>s0. new_WorkQueue None = Inr s0
         \<and> queue s0 = [] \<and> inProgressCount s0 = 0 \<and> callbacks s0 = (\<lambda>ev. None)
         \<and> \<not> halted s0 \<and> \<not> paused s0 \<and> concurrencyLimit s0 = 1 \<and> processor s0 = None"
    by (simp add: new_WorkQueue_def validateOptions_def Let_def DEFAULT_CONCURRENCY_LIMIT_def)
next
  show "new_WorkQueueError m None = JError m (Some INTERNAL)"
    by (simp add: new_WorkQueueError_def)
qed

theorem C10_constructor_validates_options_witness:
  "(\<exists>m. new_WorkQueue (Some \<lparr>opt_concurrencyLimit = Some NaN, opt_processor = ProcValue JUndefined\<rparr>)
          = Inl (JError m (Some BADREQUEST)))
   \<and> (\<exists>m. new_WorkQueue (Some (limit_only 0)) = Inl (JError m (Some BADREQUEST)))
   \<and> (\<exists>m. new_WorkQueue
             (Some \<lparr>opt_concurrencyLimit = None, opt_processor = ProcValue (JStr ''thing'')\<rparr>)
          = Inl (JError m (Some BADREQUEST)))
   \<and> (\<exists>s0. new_WorkQueue (Some (limit_only 2)) = Inr s0 \<and> queue s0 = []
          \<and> inProgressCount s0 = 0 \<and> concurrencyLimit s0 = 2 \<and> processor s0 = None)"
proof -
  note C10 = C10_constructor_validates_options [where m = JUndefined]
  have 1: "\<exists>m. new_WorkQueue (Some \<lparr>opt_concurrencyLimit = Some NaN, opt_processor = ProcValue JUndefined\<rparr>)
          = Inl (JError m (Some BADREQUEST))"
    using C10 [of "\<lparr>opt_concurrencyLimit = Some NaN, opt_processor = ProcValue JUndefined\<rparr>"]
    by simp
  have 2: "\<exists>m. new_WorkQueue (Some (limit_only 0)) = Inl (JError m (Some BADREQUEST))"
    using C10 [of "limit_only 0"] by (simp add: limit_only_def)
  have 3: "\<exists>m. new_WorkQueue
             (Some \<lparr>opt_concurrencyLimit = None, opt_processor = ProcValue (JStr ''thing'')\<rparr>)
          = Inl (JError m (Some BADREQUEST))"
    using C10 [of "\<lparr>opt_concurrencyLimit = None, opt_processor = ProcValue (JStr ''thing'')\<rparr>"]
    by simp
  have 4: "\<exists>s0. new_WorkQueue (Some (limit_only 2)) = Inr s0 \<and> queue s0 = []
          \<and> inProgressCount s0 = 0 \<and> concurrencyLimit s0 = 2 \<and> processor s0 = None"
    using C10 [of "limit_only 2"] by (auto simp: limit_only_def)
  from 1 2 3 4 show ?thesis by blast
qed

section \<open>Failures of callbacks\<close>

lemma tag_error_CALLBACK:
  "tag_error CALLBACK x = JError (case x of JError m old \<Rightarrow> m | v \<Rightarrow> x) (Some CALLBACK)"
  by (cases x) (simp_all add: tag_error_def new_WorkQueueError_def)

lemma callHandler_failure_trace:
  assumes "callbacks s ev = Some cb" and "ev \<noteq> EvError" and "ev \<noteq> EvHalted"
    and "callbacks s EvError = Some ecb"
    and "cb (calls_of ev (trace s)) a = Throws x \<or> cb (calls_of ev (trace s)) a = Rejects x"
  shows "\<exists>tr. trace (finish (callHandler ev a) s)
               = trace s @ Called ev a # Called EvError (tag_error CALLBACK x) # tr"
proof -
  let ?s1 = "s\<lparr>trace := trace s @ [Called ev a]\<rparr>"
  have cb1: "callbacks ?s1 EvError = Some ecb" using assms(4) by simp
  have "finish (callHandler ev a) s = finish (onError (tag_error CALLBACK x)) ?s1"
    using assms(1,5) by (auto simp: finish_def callHandler_def invoke_def)
  with onError_calls_error [OF cb1, of "tag_error CALLBACK x"] show ?thesis by auto
qed

lemma halt_failure_trace:
  assumes "\<not> halted s" and "callbacks s EvHalted = Some hcb" and "callbacks s EvError = Some ecb"
    and "hcb (calls_of EvHalted (trace s)) r = Throws x
         \<or> hcb (calls_of EvHalted (trace s)) r = Rejects x"
  shows "\<exists>tr. trace (finish (halt r) s)
               = trace s @ Called EvHalted r # Called EvError (tag_error CALLBACK x) # tr"
proof -
  let ?s1 = "s\<lparr>halted := True, trace := trace s @ [Called EvHalted r]\<rparr>"
  have cb1: "callbacks ?s1 EvError = Some ecb" using assms(3) by simp
  have "finish (halt r) s = finish (onError (tag_error CALLBACK x)) ?s1"
    using assms(1,2,4) by (auto simp: finish_def halt_def onHalted_def invoke_def)
  with onError_calls_error [OF cb1, of "tag_error CALLBACK x"] show ?thesis by auto
qed

text \<open>
  C7. A callback registered for any event other than \<open>error\<close> that throws, or
  whose promise rejects, has its failure made into an error record whose source is set
  to CALLBACK, whatever source the thrown value carried before, and that record is the
  argument of the next call of the error callback. This holds for the hooks called
  through \<open>_callHandler\<close> and for the halted callback. Where the promise of a callback
  is looked at in a later turn, as for the callbacks called for a waiting item, the
  error callback is called in that turn, with the same record. The thrown and rejected
  values are those on which the assignment of \<open>source\<close> succeeds.
\<close>

theorem C7_callback_failure_is_tagged_CALLBACK:
  "(callbacks s ev = Some cb \<and> ev \<noteq> EvError \<and> ev \<noteq> EvHalted \<and> callbacks s EvError = Some ecb
      \<and> (cb (calls_of ev (trace s)) a = Throws x \<or> cb (calls_of ev (trace s)) a = Rejects x)
    \<longrightarrow> (\<exists>tr. trace (finish (callHandler ev a) s)
              = trace s @ Called ev a
                  # Called EvError (JError (case x of JError m old \<Rightarrow> m | v \<Rightarrow> x) (Some CALLBACK))
                  # tr))
   \<and> (\<not> halted s \<and> callbacks s EvHalted = Some hcb \<and> callbacks s EvError = Some ecb
      \<and> (hcb (calls_of EvHalted (trace s)) r = Throws x
          \<or> hcb (calls_of EvHalted (trace s)) r = Rejects x)
    \<longrightarrow> (\<exists>tr. trace (finish (halt r) s)
              = trace s @ Called EvHalted r
                  # Called EvError (JError (case x of JError m old \<Rightarrow> m | v \<Rightarrow> x) (Some CALLBACK))
                  # tr))
   \<and> (callbacks s ev = Some cb \<and> ev \<noteq> EvError \<and> ev \<noteq> EvHalted
      \<and> cb (calls_of ev (trace s)) a = Rejects x
    \<longrightarrow> callHandler ev a s
          = (s\<lparr>trace := trace s @ [Called ev a]\<rparr>, HandlerReturned ev (Rejects x)))
   \<and> (callbacks t EvError = Some ecb'
    \<longrightarrow> (\<exists>tr. trace (await (HandlerReturned ev (Rejects x)) t)
              = trace t
                  @ Called EvError (JError (case x of JError m old \<Rightarrow> m | v \<Rightarrow> x) (Some CALLBACK))
                  # tr))"
proof -
  have 3: "callbacks s ev = Some cb \<and> ev \<noteq> EvError \<and> ev \<noteq> EvHalted
      \<and> cb (calls_of ev (trace s)) a = Rejects x
    \<longrightarrow> callHandler ev a s
          = (s\<lparr>trace := trace s @ [Called ev a]\<rparr>, HandlerReturned ev (Rejects x))"
    by (simp add: callHandler_def invoke_def)
  have 4: "callbacks t EvError = Some ecb'
    \<longrightarrow> (\<exists>tr. trace (await (HandlerReturned ev (Rejects x)) t)
              = trace t
                  @ Called EvError (JError (case x of JError m old \<Rightarrow> m | v \<Rightarrow> x) (Some CALLBACK))
                  # tr)"
  proof
    assume c: "callbacks t EvError = Some ecb'"
    have "await (HandlerReturned ev (Rejects x)) t = finish (onError (tag_error CALLBACK x)) t"
      by (simp add: finish_def)
    with onError_calls_error [OF c, of "tag_error CALLBACK x"]
    show "\<exists>tr. trace (await (HandlerReturned ev (Rejects x)) t)
              = trace t
                  @ Called EvError (JError (case x of JError m old \<Rightarrow> m | v \<Rightarrow> x) (Some CALLBACK))
                  # tr"
      by (simp add: tag_error_CALLBACK)
  qed
  from 3 4 callHandler_failure_trace [of s ev cb ecb a x] halt_failure_trace [of s hcb ecb r x]
  show ?thesis by (simp add: tag_error_CALLBACK)
qed

text \<open>
  C7 in the form that keeps a source the value already has does not hold: a
  \<open>noWork\<close> callback throws an error that is already tagged
  PROCESS, and the error callback receives it tagged CALLBACK.
\<close>

theorem C7_source_tag_not_preserved:
  "filter (is_call_of EvError) (trace (run tagged_failure_run (fresh_queue 1 None)))
     = [Called EvError (JError (JStr ''boom'') (Some CALLBACK))]
   \<and> Called EvError (JError (JStr ''boom'') (Some PROCESS))
       \<notin> set (trace (run tagged_failure_run (fresh_queue 1 None)))"
  by code_simp

theorem C7_callback_failure_is_tagged_CALLBACK_witness:
  "callbacks (run [On ''noWork'' (CbFunction (\<lambda>n a. Rejects (JStr ''late''))),
                   On ''error'' (CbFunction (\<lambda>n a. Returns JUndefined))] (fresh_queue 1 None))
      EvNoWork = Some (\<lambda>n a. Rejects (JStr ''late''))
   \<and> (\<exists>tr. trace (finish (callHandler EvNoWork JUndefined)
                     (run [On ''noWork'' (CbFunction (\<lambda>n a. Rejects (JStr ''late''))),
                           On ''error'' (CbFunction (\<lambda>n a. Returns JUndefined))]
                        (fresh_queue 1 None)))
            = Called EvNoWork JUndefined
                # Called EvError (JError (JStr ''late'') (Some CALLBACK)) # tr)
   \<and> (\<exists>tr. trace (finish (halt JUndefined) double_fault)
            = Called EvHalted JUndefined
                # Called EvError (JError (JStr ''error from halted callback'') (Some CALLBACK)) # tr)
   \<and> snd (callHandler EvNoWork JUndefined
             (run [On ''noWork'' (CbFunction (\<lambda>n a. Rejects (JStr ''late''))),
                   On ''error'' (CbFunction (\<lambda>n a. Returns JUndefined))] (fresh_queue 1 None)))
       = HandlerReturned EvNoWork (Rejects (JStr ''late''))
   \<and> (\<exists>tr. trace (await (HandlerReturned EvNoWork (Rejects (JStr ''late'')))
                     (run [On ''noWork'' (CbFunction (\<lambda>n a. Rejects (JStr ''late''))),
                           On ''error'' (CbFunction (\<lambda>n a. Returns JUndefined))]
                        (fresh_queue 1 None)))
            = Called EvError (JError (JStr ''late'') (Some CALLBACK)) # tr)"
proof -
  let ?q = "run [On ''noWork'' (CbFunction (\<lambda>n a. Rejects (JStr ''late''))),
                 On ''error'' (CbFunction (\<lambda>n a. Returns JUndefined))] (fresh_queue 1 None)"
  have q: "callbacks ?q EvNoWork = Some (\<lambda>n a. Rejects (JStr ''late''))"
       "callbacks ?q EvError = Some (\<lambda>n a. Returns JUndefined)" "trace ?q = []"
    by (simp_all add: run_def on_def event_of_def fresh_queue_def)
  have d: "callbacks double_fault EvHalted = Some (\<lambda>n a. Throws (JStr ''error from halted callback''))"
       "callbacks double_fault EvError = Some (\<lambda>n a. Throws (JStr ''error from error callback''))"
       "trace double_fault = []" "\<not> halted double_fault"
    by (simp_all add: double_fault_def run_def on_def event_of_def fresh_queue_def)
  from C7_callback_failure_is_tagged_CALLBACK
         [where s = ?q and ev = EvNoWork and cb = "\<lambda>n a. Rejects (JStr ''late'')"
            and ecb = "\<lambda>n a. Returns JUndefined" and a = JUndefined and x = "JStr ''late''"] q
  have 1: "\<exists>tr. trace (finish (callHandler EvNoWork JUndefined) ?q)
            = Called EvNoWork JUndefined # Called EvError (JError (JStr ''late'') (Some CALLBACK)) # tr"
    by simp
  from C7_callback_failure_is_tagged_CALLBACK
         [where s = double_fault and ecb = "\<lambda>n a. Throws (JStr ''error from error callback'')"
            and x = "JStr ''error from halted callback''"
            and hcb = "\<lambda>n a. Throws (JStr ''error from halted callback'')" and r = JUndefined] d
  have 2: "\<exists>tr. trace (finish (halt JUndefined) double_fault)
            = Called EvHalted JUndefined
                # Called EvError (JError (JStr ''error from halted callback'') (Some CALLBACK)) # tr"
    by simp
  from C7_callback_failure_is_tagged_CALLBACK
         [where s = ?q and ev = EvNoWork and cb = "\<lambda>n a. Rejects (JStr ''late'')"
            and a = JUndefined and x = "JStr ''late''" and t = ?q
            and ecb' = "\<lambda>n a. Returns JUndefined"] q
  have 3: "snd (callHandler EvNoWork JUndefined ?q) = HandlerReturned EvNoWork (Rejects (JStr ''late''))"
    and 4: "\<exists>tr. trace (await (HandlerReturned EvNoWork (Rejects (JStr ''late''))) ?q)
            = Called EvError (JError (JStr ''late'') (Some CALLBACK)) # tr"
    by simp_all
  from q(1) 1 2 3 4 show ?thesis by blast
qed

section \<open>Validation of enqueued items\<close>

lemma retrieved_no_processor:
  assumes "processor s = None" and "callbacks s EvError = Some ecb"
    and "resolved_value p \<notin> {BEFORE_SKIP, BEFORE_HALT, JBool False}"
  shows "\<exists>tr1 tr2.
           trace (processNextItem_retrieved (Payload v)
                    (retrieveNextPromise_beforeItem (Payload v) p s))
             = trace s @ tr1
                 @ Called EvError
                     (JError (JStr ''Enqueued item is not a function, and processor was not defined'')
                        (Some BADREQUEST)) # tr2"
    and "launched (trace (processNextItem_retrieved (Payload v)
                            (retrieveNextPromise_beforeItem (Payload v) p s)))
           = launched (trace s)"
proof -
  let ?err = "new_WorkQueueError
                (JStr ''Enqueued item is not a function, and processor was not defined'')
                (Some BADREQUEST)"
  let ?s4 = "await p s"
  let ?s5 = "finish (onError ?err) ?s4"
  have h: "hooked s ?s4" by (rule await_hooked)
  have p4: "processor ?s4 = None" and c4: "callbacks ?s4 EvError = Some ecb"
    using hooked_fields(4,5) [OF h] assms by simp_all
  have l: "launch (Payload v) ?s4 = (Inl ?err, ?s4)" using p4 by (simp add: launch_def)
  have r: "retrieveNextPromise_beforeItem (Payload v) p s = (None, ?s5)"
    using assms(3) l by (simp add: retrieveNextPromise_beforeItem_def Let_def)
  have res: "processNextItem_retrieved (Payload v) (retrieveNextPromise_beforeItem (Payload v) p s)
               = processNextItemWrapper_done (Payload v) ?s5"
    using r by (simp add: processNextItem_retrieved_def)
  obtain tr1 where t4: "trace ?s4 = trace s @ tr1" using hooked_trace [OF h] by blast
  obtain tr where t5: "trace ?s5 = trace ?s4 @ Called EvError ?err # tr"
    using onError_calls_error [OF c4, of ?err] by blast
  obtain tr' where t6: "trace (processNextItemWrapper_done (Payload v) ?s5)
      = trace (?s5\<lparr>inProgressCount := inProgressCount ?s5 - 1\<rparr>) @ tr'"
    using moves_trace [OF wrapper_done_moves [of "Payload v" ?s5]] by blast
  have "trace (processNextItemWrapper_done (Payload v) ?s5)
          = trace s @ tr1 @ Called EvError ?err # (tr @ tr')"
    using t4 t5 t6 by simp
  then show "\<exists>tr1 tr2.
           trace (processNextItem_retrieved (Payload v)
                    (retrieveNextPromise_beforeItem (Payload v) p s))
             = trace s @ tr1
                 @ Called EvError
                     (JError (JStr ''Enqueued item is not a function, and processor was not defined'')
                        (Some BADREQUEST)) # tr2"
    unfolding res new_WorkQueueError_def by auto
  have "launched (trace ?s4) = launched (trace s)"
    using hooked_proj(4) [OF h] by simp
  moreover have "launched (trace ?s5) = launched (trace ?s4)"
    using hooked_proj(4) [OF finish_onError_hooked [of ?s4 ?err]] by simp
  moreover have "launched (trace (processNextItemWrapper_done (Payload v) ?s5))
                   = launched (trace ?s5)"
    using moves_proj(4) [OF wrapper_done_moves [of "Payload v" ?s5]] by simp
  ultimately show "launched (trace (processNextItem_retrieved (Payload v)
                            (retrieveNextPromise_beforeItem (Payload v) p s)))
           = launched (trace s)"
    using res by simp
qed

lemma proceed_no_processor:
  assumes "n < length (retrieving s)" and "retrieving s ! n = (Payload v, BeforeItemCalled p)"
    and "resolved_value p \<notin> {BEFORE_SKIP, BEFORE_HALT, JBool False}"
    and "processor s = None" and "callbacks s EvError = Some ecb"
  shows "\<exists>tr1 tr2. trace (proceed n s)
           = trace s @ tr1
               @ Called EvError
                   (JError (JStr ''Enqueued item is not a function, and processor was not defined'')
                      (Some BADREQUEST)) # tr2"
    and "launched (trace (proceed n s)) = launched (trace s)"
proof -
  let ?b = "s\<lparr>retrieving := take n (retrieving s) @ drop (Suc n) (retrieving s)\<rparr>"
  have b: "processor ?b = None" "callbacks ?b EvError = Some ecb" using assms by simp_all
  note r = retrieved_no_processor [OF b assms(3), of v]
  show "\<exists>tr1 tr2. trace (proceed n s)
           = trace s @ tr1
               @ Called EvError
                   (JError (JStr ''Enqueued item is not a function, and processor was not defined'')
                      (Some BADREQUEST)) # tr2"
    using r(1) unfolding proceed_beforeItem [OF assms(1,2)] by simp
  show "launched (trace (proceed n s)) = launched (trace s)"
    using r(2) unfolding proceed_beforeItem [OF assms(1,2)] by simp
qed

lemma admit_no_processor:
  assumes "processor s = None" and "\<not> halted s" and "\<not> paused s"
    and "of_int (inProgressCount s) < concurrencyLimit s" and "queue s = Payload v # rest"
    and "callbacks s EvError = Some ecb"
    and "before_answer s \<notin> {BEFORE_SKIP, BEFORE_HALT, JBool False}"
  shows "\<exists>tr1 tr2. trace (admit s)
           = trace s @ Dequeued (Payload v) # tr1
               @ Called EvError
                   (JError (JStr ''Enqueued item is not a function, and processor was not defined'')
                      (Some BADREQUEST)) # tr2"
    and "launched (trace (admit s)) = launched (trace s)"
proof -
  let ?b = "s\<lparr>queue := rest, inProgressCount := inProgressCount s + 1,
               trace := trace s @ [Dequeued (Payload v)]\<rparr>"
  obtain s3 p where h: "hooked ?b s3" and rv: "resolved_value p = before_answer s"
    and res: "admit s = processNextItem_retrieved (Payload v)
                          (retrieveNextPromise_beforeItem (Payload v) p s3)"
    using admit_before [OF assms(2-5)] by blast
  have p3: "processor s3 = None" and c3: "callbacks s3 EvError = Some ecb"
    using hooked_fields(4,5) [OF h] assms by simp_all
  have nw: "resolved_value p \<notin> {BEFORE_SKIP, BEFORE_HALT, JBool False}"
    using rv assms(7) by simp
  note r = retrieved_no_processor [OF p3 c3 nw, of v]
  obtain tr0 where t3: "trace s3 = trace ?b @ tr0" using hooked_trace [OF h] by blast
  from r(1) obtain tr1 tr2 where
    "trace (admit s) = trace s3 @ tr1
       @ Called EvError
           (JError (JStr ''Enqueued item is not a function, and processor was not defined'')
              (Some BADREQUEST)) # tr2"
    unfolding res by blast
  then have "trace (admit s) = trace s @ Dequeued (Payload v) # (tr0 @ tr1)
       @ Called EvError
           (JError (JStr ''Enqueued item is not a function, and processor was not defined'')
              (Some BADREQUEST)) # tr2"
    using t3 by simp
  then show "\<exists>tr1 tr2. trace (admit s)
           = trace s @ Dequeued (Payload v) # tr1
               @ Called EvError
                   (JError (JStr ''Enqueued item is not a function, and processor was not defined'')
                      (Some BADREQUEST)) # tr2"
    by blast
  show "launched (trace (admit s)) = launched (trace s)"
    using r(2) hooked_proj(4) [OF h] unfolding res by simp
qed

lemma addAll_plain:
  assumes "callbacks s EvQueueSizeChange = None" and "callbacks s EvQueueEmpty = None"
  shows "addAll items s = s\<lparr>queue := queue s @ items, trace := trace s @ map Enqueued items\<rparr>"
  using assms
  by (simp add: addAll_def finish_all_def onQueueSizeChange_def Let_def callHandler_def
        await_all_def)

text \<open>
  C5. Without a processor, \<open>add\<close> of an item that is not a function throws a
  BADREQUEST error and does nothing else: the queue is as before. \<open>addAll\<close> cannot throw;
  it appends its items as they are, whatever they are, and when no queue-size callback
  is registered it does nothing but append and log. The error appears when the item is
  taken: if the queue is running with room left, its first item is not a function, no
  processor is configured and \<open>beforeItemProcessed\<close> does not withhold the item, then
  \<open>_evaluateQueue\<close> dequeues the item and, once the callbacks called for the item are
  done with, a BADREQUEST error is passed to the error callback, and nothing is
  launched. The last part holds whenever the promise of \<open>beforeItemProcessed\<close> settles,
  whatever happened since the item was taken.
\<close>

theorem C5_add_validates_addAll_defers:
  "(processor s = None \<and> \<not> is_function it
      \<longrightarrow> add it s
            = Inl (JError (JStr ''Only functions may be added to the queue when no processor has been defined'')
                     (Some BADREQUEST))
          \<and> exec (Add it) s = s)
   \<and> queue (addAll items s) = queue s @ items
   \<and> (callbacks s EvQueueSizeChange = None \<and> callbacks s EvQueueEmpty = None
      \<longrightarrow> addAll items s
            = s\<lparr>queue := queue s @ items, trace := trace s @ map Enqueued items\<rparr>)
   \<and> (processor s = None \<and> \<not> halted s \<and> \<not> paused s
        \<and> of_int (inProgressCount s) < concurrencyLimit s
        \<and> queue s = Payload v # rest \<and> callbacks s EvError = Some ecb
        \<and> before_answer s \<notin> {BEFORE_SKIP, BEFORE_HALT, JBool False}
      \<longrightarrow> (\<exists>tr1 tr2. trace (admit s)
              = trace s @ Dequeued (Payload v) # tr1
                  @ Called EvError
                      (JError (JStr ''Enqueued item is not a function, and processor was not defined'')
                         (Some BADREQUEST)) # tr2)
          \<and> launched (trace (admit s)) = launched (trace s))
   \<and> (n < length (retrieving s) \<and> retrieving s ! n = (Payload v, BeforeItemCalled p)
        \<and> resolved_value p \<notin> {BEFORE_SKIP, BEFORE_HALT, JBool False}
        \<and> processor s = None \<and> callbacks s EvError = Some ecb
      \<longrightarrow> (\<exists>tr1 tr2. trace (proceed n s)
              = trace s @ tr1
                  @ Called EvError
                      (JError (JStr ''Enqueued item is not a function, and processor was not defined'')
                         (Some BADREQUEST)) # tr2)
          \<and> launched (trace (proceed n s)) = launched (trace s))"
proof (intro conjI impI)
  assume "processor s = None \<and> \<not> is_function it"
  then show "add it s
            = Inl (JError (JStr ''Only functions may be added to the queue when no processor has been defined'')
                     (Some BADREQUEST))"
    by (simp add: add_def new_WorkQueueError_def)
next
  assume "processor s = None \<and> \<not> is_function it"
  then show "exec (Add it) s = s" by (simp add: add_def)
next
  show "queue (addAll items s) = queue s @ items"
    using moves_fields(1) [OF addAll_moves [of items s]] by simp
next
  assume "callbacks s EvQueueSizeChange = None \<and> callbacks s EvQueueEmpty = None"
  then show "addAll items s
            = s\<lparr>queue := queue s @ items, trace := trace s @ map Enqueued items\<rparr>"
    using addAll_plain by blast
next
  assume a: "processor s = None \<and> \<not> halted s \<and> \<not> paused s
        \<and> of_int (inProgressCount s) < concurrencyLimit s
        \<and> queue s = Payload v # rest \<and> callbacks s EvError = Some ecb
        \<and> before_answer s \<notin> {BEFORE_SKIP, BEFORE_HALT, JBool False}"
  then show "\<exists>tr1 tr2. trace (admit s)
              = trace s @ Dequeued (Payload v) # tr1
                  @ Called EvError
                      (JError (JStr ''Enqueued item is not a function, and processor was not defined'')
                         (Some BADREQUEST)) # tr2"
    using admit_no_processor(1) [of s v rest ecb] by blast
  from a show "launched (trace (admit s)) = launched (trace s)"
    using admit_no_processor(2) [of s v rest ecb] by blast
next
  assume a: "n < length (retrieving s) \<and> retrieving s ! n = (Payload v, BeforeItemCalled p)
        \<and> resolved_value p \<notin> {BEFORE_SKIP, BEFORE_HALT, JBool False}
        \<and> processor s = None \<and> callbacks s EvError = Some ecb"
  then show "\<exists>tr1 tr2. trace (proceed n s)
              = trace s @ tr1
                  @ Called EvError
                      (JError (JStr ''Enqueued item is not a function, and processor was not defined'')
                         (Some BADREQUEST)) # tr2"
    using proceed_no_processor(1) [of n s v p ecb] by blast
  from a show "launched (trace (proceed n s)) = launched (trace s)"
    using proceed_no_processor(2) [of n s v p ecb] by blast
qed

theorem C5_add_validates_addAll_defers_witness:
  "exec (Add (Payload (JStr ''x''))) (fresh_queue 1 None) = fresh_queue 1 None
   \<and> queue (addAll [Payload (JStr ''x'')] (fresh_queue 1 None)) = [Payload (JStr ''x'')]
   \<and> launched (trace (admit (run [On ''error'' (CbFunction (\<lambda>n a. Returns JUndefined)),
                                    AddAll [Payload (JStr ''x'')]] (fresh_queue 1 None)))) = []
   \<and> trace (admit (run [On ''error'' (CbFunction (\<lambda>n a. Returns JUndefined)),
                         AddAll [Payload (JStr ''x'')]] (fresh_queue 1 None)))
       = [Enqueued (Payload (JStr ''x'')), Dequeued (Payload (JStr ''x'')),
          Called EvError
            (JError (JStr ''Enqueued item is not a function, and processor was not defined'')
               (Some BADREQUEST)),
          Completed (Payload (JStr ''x''))]
   \<and> launched (trace (proceed 0
        (run [On ''error'' (CbFunction (\<lambda>n a. Returns JUndefined)),
              AddAll [Payload (JStr ''x'')], Evaluate, Add (task 1), Proceed 0]
           (fresh_queue 1 None)))) = []"
proof -
  let ?x = "Payload (JStr ''x'')"
  let ?q = "run [On ''error'' (CbFunction (\<lambda>n a. Returns JUndefined)), AddAll [?x]]
              (fresh_queue 1 None)"
  let ?r = "run [On ''error'' (CbFunction (\<lambda>n a. Returns JUndefined)),
                 AddAll [?x], Evaluate, Add (task 1), Proceed 0] (fresh_queue 1 None)"
  note C5 = C5_add_validates_addAll_defers
  have 1: "exec (Add ?x) (fresh_queue 1 None) = fresh_queue 1 None"
    using C5 [of "fresh_queue 1 None" ?x] by (simp add: fresh_queue_def)
  have 2: "queue (addAll [?x] (fresh_queue 1 None)) = [?x]"
    using C5 [of "fresh_queue 1 None" _ "[?x]"] by (simp add: fresh_queue_def)
  have q: "processor ?q = None" "\<not> halted ?q" "\<not> paused ?q"
    "of_int (inProgressCount ?q) < concurrencyLimit ?q" "queue ?q = [?x]"
    "callbacks ?q EvError = Some (\<lambda>n a. Returns JUndefined)"
    "before_answer ?q = JUndefined" "launched (trace ?q) = []"
    by (simp_all add: run_def on_def event_of_def fresh_queue_def addAll_plain before_answer_def)
  have 3: "launched (trace (admit ?q)) = []"
    using C5 [where s = ?q and v = "JStr ''x''" and rest = "[]"
                and ecb = "\<lambda>n a. Returns JUndefined"] q
    by (simp add: BEFORE_SKIP_def BEFORE_HALT_def)
  have 4: "trace (admit ?q)
       = [Enqueued ?x, Dequeued ?x,
          Called EvError
            (JError (JStr ''Enqueued item is not a function, and processor was not defined'')
               (Some BADREQUEST)),
          Completed ?x]"
    by code_simp
  have r: "retrieving ?r = [(?x, BeforeItemCalled Settled)]" "processor ?r = None"
    "launched (trace ?r) = []"
    by code_simp+
  have "(case callbacks ?r EvError of None \<Rightarrow> False | Some f \<Rightarrow> True)" by code_simp
  then obtain f where f: "callbacks ?r EvError = Some f" by (auto split: option.splits)
  have 5: "launched (trace (proceed 0 ?r)) = []"
    using C5 [where s = ?r and n = 0 and v = "JStr ''x''" and p = Settled and ecb = f] r f
    by (simp add: BEFORE_SKIP_def BEFORE_HALT_def)
  from 1 2 3 4 5 show ?thesis by simp
qed

section \<open>Completion of an item\<close>

lemma wrapper_done_calls:
  "calls_of EvNoWork (trace (processNextItemWrapper_done it s))
     = calls_of EvNoWork (trace s)
       + (if inProgressCount s - 1 = 0 \<and> queue s = [] \<and> callbacks s EvNoWork \<noteq> None
          then 1 else 0)"
  "calls_of EvAfterPauseCompleted (trace (processNextItemWrapper_done it s))
     = calls_of EvAfterPauseCompleted (trace s)
       + (if inProgressCount s - 1 = 0 \<and> paused s \<and> callbacks s EvAfterPauseCompleted \<noteq> None
          then 1 else 0)"
  "halted s \<Longrightarrow> calls_of EvAfterHaltCompleted (trace (processNextItemWrapper_done it s))
     = calls_of EvAfterHaltCompleted (trace s)
       + (if inProgressCount s - 1 = 0 \<and> callbacks s EvAfterHaltCompleted \<noteq> None
          then 1 else 0)"
proof -
  let ?s0 = "s\<lparr>inProgressCount := inProgressCount s - 1, trace := trace s @ [Completed it]\<rparr>"
  obtain s1 p1 where e1:
    "(if inProgressCount ?s0 = 0 \<and> getQueueSize ?s0 = 0 then onNoWork ?s0 else (?s0, Settled)) = (s1, p1)"
    by fastforce
  obtain s2 p2 where e2:
    "(if inProgressCount s1 = 0 \<and> halted s1 then onAfterHaltCompleted s1 else (s1, Settled)) = (s2, p2)"
    by fastforce
  obtain s3 p3 where e3:
    "(if inProgressCount s2 = 0 \<and> paused s2 then onAfterPauseCompleted s2 else (s2, Settled)) = (s3, p3)"
    by fastforce
  have r: "processNextItemWrapper_done it s = await_all [p1, p2, p3] s3"
    unfolding processNextItemWrapper_done_def Let_def using e1 e2 e3 by simp
  have h1: "hooked ?s0 s1"
    using e1 by (auto simp: onNoWork_def split: if_splits dest: callHandler_hooked)
  have h2: "hooked s1 s2"
    using e2 by (auto simp: onAfterHaltCompleted_def split: if_splits dest: callHandler_hooked)
  note f1 = hooked_fields [OF h1] and f2 = hooked_fields [OF h2]
  have n1: "calls_of EvNoWork (trace s1)
      = calls_of EvNoWork (trace s)
        + (if inProgressCount s - 1 = 0 \<and> queue s = [] \<and> callbacks s EvNoWork \<noteq> None then 1 else 0)"
    using e1 callHandler_calls [of EvNoWork JUndefined ?s0 s1 p1 EvNoWork]
    by (auto simp: onNoWork_def getQueueSize_def split: if_splits)
  have n2: "calls_of EvNoWork (trace s2) = calls_of EvNoWork (trace s1)"
    using e2 callHandler_calls [of EvAfterHaltCompleted JUndefined s1 s2 p2 EvNoWork]
    by (auto simp: onAfterHaltCompleted_def split: if_splits)
  have n3: "calls_of EvNoWork (trace s3) = calls_of EvNoWork (trace s2)"
    using e3 callHandler_calls [of EvAfterPauseCompleted JUndefined s2 s3 p3 EvNoWork]
    by (auto simp: onAfterPauseCompleted_def split: if_splits)
  show "calls_of EvNoWork (trace (processNextItemWrapper_done it s))
     = calls_of EvNoWork (trace s)
       + (if inProgressCount s - 1 = 0 \<and> queue s = [] \<and> callbacks s EvNoWork \<noteq> None
          then 1 else 0)"
    using r n1 n2 n3 by (simp add: await_all_calls)
  have a1: "calls_of EvAfterPauseCompleted (trace s1) = calls_of EvAfterPauseCompleted (trace s)"
    using e1 callHandler_calls [of EvNoWork JUndefined ?s0 s1 p1 EvAfterPauseCompleted]
    by (auto simp: onNoWork_def split: if_splits)
  have a2: "calls_of EvAfterPauseCompleted (trace s2) = calls_of EvAfterPauseCompleted (trace s1)"
    using e2 callHandler_calls [of EvAfterHaltCompleted JUndefined s1 s2 p2 EvAfterPauseCompleted]
    by (auto simp: onAfterHaltCompleted_def split: if_splits)
  have a3: "calls_of EvAfterPauseCompleted (trace s3)
      = calls_of EvAfterPauseCompleted (trace s2)
        + (if inProgressCount s - 1 = 0 \<and> paused s \<and> callbacks s EvAfterPauseCompleted \<noteq> None
           then 1 else 0)"
    using e3 callHandler_calls [of EvAfterPauseCompleted JUndefined s2 s3 p3 EvAfterPauseCompleted]
      f1 f2
    by (auto simp: onAfterPauseCompleted_def split: if_splits)
  show "calls_of EvAfterPauseCompleted (trace (processNextItemWrapper_done it s))
     = calls_of EvAfterPauseCompleted (trace s)
       + (if inProgressCount s - 1 = 0 \<and> paused s \<and> callbacks s EvAfterPauseCompleted \<noteq> None
          then 1 else 0)"
    using r a1 a2 a3 by (simp add: await_all_calls)
  assume hs: "halted s"
  then have hs1: "halted s1" using f1(8) by simp
  have b1: "calls_of EvAfterHaltCompleted (trace s1) = calls_of EvAfterHaltCompleted (trace s)"
    using e1 callHandler_calls [of EvNoWork JUndefined ?s0 s1 p1 EvAfterHaltCompleted]
    by (auto simp: onNoWork_def split: if_splits)
  have b2: "calls_of EvAfterHaltCompleted (trace s2)
      = calls_of EvAfterHaltCompleted (trace s1)
        + (if inProgressCount s - 1 = 0 \<and> callbacks s EvAfterHaltCompleted \<noteq> None
           then 1 else 0)"
    using e2 callHandler_calls [of EvAfterHaltCompleted JUndefined s1 s2 p2 EvAfterHaltCompleted]
      f1 hs1
    by (auto simp: onAfterHaltCompleted_def split: if_splits)
  have b3: "calls_of EvAfterHaltCompleted (trace s3) = calls_of EvAfterHaltCompleted (trace s2)"
    using e3 callHandler_calls [of EvAfterPauseCompleted JUndefined s2 s3 p3 EvAfterHaltCompleted]
    by (auto simp: onAfterPauseCompleted_def split: if_splits)
  show "calls_of EvAfterHaltCompleted (trace (processNextItemWrapper_done it s))
     = calls_of EvAfterHaltCompleted (trace s)
       + (if inProgressCount s - 1 = 0 \<and> callbacks s EvAfterHaltCompleted \<noteq> None
          then 1 else 0)"
    using r b1 b2 b3 by (simp add: await_all_calls)
qed

lemma processNextItem_settled_calls:
  assumes "e \<noteq> EvError" and "e \<noteq> EvHalted" and "e \<noteq> EvItemProcessed"
  shows "calls_of e (trace (processNextItem_settled pr s)) = calls_of e (trace s)"
proof (cases pr)
  case (Fulfilled v)
  let ?s1 = "finish (onItemProcessed v) s"
  have 1: "calls_of e (trace ?s1) = calls_of e (trace s)"
    using counted_facts(10) [OF finish_callHandler_counted [of EvItemProcessed s v], of e] assms
    by (simp add: onItemProcessed_def)
  have 2: "calls_of e (trace (finish (halt (JHaltData PROCESSRETVAL JUndefined JUndefined)) ?s1))
            = calls_of e (trace ?s1)"
    using counted_facts(10) [OF finish_halt_counted] assms by simp
  show ?thesis using Fulfilled 1 2 by (auto simp: processNextItem_settled_def Let_def)
next
  case (Rejected err)
  then show ?thesis
    using counted_facts(10) [OF finish_onError_counted] assms
    by (simp add: processNextItem_settled_def)
qed

lemma settle_calls:
  assumes "n < length (inflight s)"
  shows "calls_of EvNoWork (trace (settle n s))
     = calls_of EvNoWork (trace s)
       + (if inProgressCount s - 1 = 0 \<and> queue s = [] \<and> callbacks s EvNoWork \<noteq> None
          then 1 else 0)"
    and "calls_of EvAfterPauseCompleted (trace (settle n s))
     = calls_of EvAfterPauseCompleted (trace s)
       + (if inProgressCount s - 1 = 0 \<and> paused s \<and> callbacks s EvAfterPauseCompleted \<noteq> None
          then 1 else 0)"
    and "halted s \<Longrightarrow> calls_of EvAfterHaltCompleted (trace (settle n s))
     = calls_of EvAfterHaltCompleted (trace s)
       + (if inProgressCount s - 1 = 0 \<and> callbacks s EvAfterHaltCompleted \<noteq> None
          then 1 else 0)"
proof -
  obtain it pr where e: "inflight s ! n = (it, pr)" by (cases "inflight s ! n")
  let ?s1 = "s\<lparr>inflight := take n (inflight s) @ drop (Suc n) (inflight s)\<rparr>"
  let ?s2 = "processNextItem_settled pr ?s1"
  have res: "settle n s = processNextItemWrapper_done it ?s2"
    using assms e by (simp add: settle_def)
  note f = hooked_fields [OF processNextItem_settled_hooked [of ?s1 pr]]
  show "calls_of EvNoWork (trace (settle n s))
     = calls_of EvNoWork (trace s)
       + (if inProgressCount s - 1 = 0 \<and> queue s = [] \<and> callbacks s EvNoWork \<noteq> None
          then 1 else 0)"
    unfolding res wrapper_done_calls(1)
    using f processNextItem_settled_calls [of EvNoWork pr ?s1] by simp
  show "calls_of EvAfterPauseCompleted (trace (settle n s))
     = calls_of EvAfterPauseCompleted (trace s)
       + (if inProgressCount s - 1 = 0 \<and> paused s \<and> callbacks s EvAfterPauseCompleted \<noteq> None
          then 1 else 0)"
    unfolding res wrapper_done_calls(2)
    using f processNextItem_settled_calls [of EvAfterPauseCompleted pr ?s1] by simp
  assume "halted s"
  then have "halted ?s2" using f(8) by simp
  from wrapper_done_calls(3) [OF this, of it]
  show "calls_of EvAfterHaltCompleted (trace (settle n s))
     = calls_of EvAfterHaltCompleted (trace s)
       + (if inProgressCount s - 1 = 0 \<and> callbacks s EvAfterHaltCompleted \<noteq> None
          then 1 else 0)"
    unfolding res
    using f processNextItem_settled_calls [of EvAfterHaltCompleted pr ?s1] by simp
qed

text \<open>
  C9. When an item is done, the completion handler of \<open>_processNextItemWrapper\<close>
  decrements the counter and then calls the \<open>noWork\<close> callback exactly once if the
  counter is now 0 and the queue is empty (and a callback is registered), and not at all
  otherwise. The condition is read from the state at that moment and from nothing else,
  so it fires again whenever a later completion finds the queue drained. The same holds
  for the turn in which the promise of a launched item settles.
\<close>

theorem C9_noWork_iff_idle_and_empty:
  "calls_of EvNoWork (trace (processNextItemWrapper_done it s))
     = calls_of EvNoWork (trace s)
       + (if inProgressCount s - 1 = 0 \<and> queue s = [] \<and> callbacks s EvNoWork \<noteq> None
          then 1 else 0)
   \<and> (n < length (inflight s)
      \<longrightarrow> calls_of EvNoWork (trace (settle n s))
            = calls_of EvNoWork (trace s)
              + (if inProgressCount s - 1 = 0 \<and> queue s = [] \<and> callbacks s EvNoWork \<noteq> None
                 then 1 else 0))"
  using wrapper_done_calls(1) [of it s] settle_calls(1) [of n s] by simp

theorem C9_noWork_iff_idle_and_empty_witness:
  "0 < length (inflight (run requeue_run (fresh_queue 1 None)))
   \<and> calls_of EvNoWork (trace (run requeue_run (fresh_queue 1 None))) = 1
   \<and> calls_of EvNoWork (trace (settle 0 (run requeue_run (fresh_queue 1 None)))) = 2"
proof -
  let ?s = "run requeue_run (fresh_queue 1 None)"
  have 1: "0 < length (inflight ?s)" by code_simp
  have 2: "calls_of EvNoWork (trace ?s) = 1" by code_simp
  have 3: "inProgressCount ?s - 1 = 0" by code_simp
  have 4: "queue ?s = []" by code_simp
  have "(case callbacks ?s EvNoWork of None \<Rightarrow> False | Some f \<Rightarrow> True)" by code_simp
  then have 5: "callbacks ?s EvNoWork \<noteq> None" by (simp split: option.splits)
  from C9_noWork_iff_idle_and_empty [of undefined ?s 0] 1 2 3 4 5
  show ?thesis by simp
qed

section \<open>Skipping an item\<close>

lemma retrieved_skip:
  "resolved_value p = BEFORE_SKIP
   \<Longrightarrow> processNextItem_retrieved it (retrieveNextPromise_beforeItem it p s)
       = processNextItemWrapper_done it s"
  by (simp add: beforeItem_skip processNextItem_retrieved_def)

lemma proceed_skip:
  assumes "n < length (retrieving s)" and "retrieving s ! n = (it, BeforeItemCalled p)"
    and "resolved_value p = BEFORE_SKIP"
  shows "proceed n s
           = processNextItemWrapper_done it
               (s\<lparr>retrieving := take n (retrieving s) @ drop (Suc n) (retrieving s)\<rparr>)"
  using proceed_beforeItem [OF assms(1,2)] retrieved_skip [OF assms(3)] by simp

lemma admit_skip:
  assumes "\<not> halted s" and "\<not> paused s" and "of_int (inProgressCount s) < concurrencyLimit s"
    and "queue s = it # rest" and "before_answer s = BEFORE_SKIP"
  shows "launched (trace (admit s)) = launched (trace s)"
    and "dequeued (trace (admit s)) = dequeued (trace s) @ [it]"
    and "completed (trace (admit s)) = completed (trace s) @ [it]"
    and "inProgressCount (admit s) = inProgressCount s"
    and "queue (admit s) = rest"
    and "inflight (admit s) = inflight s"
    and "retrieving (admit s) = retrieving s"
    and "calls_of EvNoWork (trace (admit s))
           = calls_of EvNoWork (trace s)
             + (if inProgressCount s = 0 \<and> rest = [] \<and> callbacks s EvNoWork \<noteq> None
                then 1 else 0)"
proof -
  let ?b = "s\<lparr>queue := rest, inProgressCount := inProgressCount s + 1,
               trace := trace s @ [Dequeued it]\<rparr>"
  obtain s3 p where h: "hooked ?b s3" and rv: "resolved_value p = before_answer s"
    and nw: "calls_of EvNoWork (trace s3) = calls_of EvNoWork (trace s)"
    and r: "admit s = processNextItem_retrieved it (retrieveNextPromise_beforeItem it p s3)"
    using admit_before [OF assms(1-4)] by blast
  have res: "admit s = processNextItemWrapper_done it s3"
    using r rv assms(5) by (simp add: retrieved_skip)
  note f4 = hooked_fields [OF h] and p4 = hooked_proj [OF h]
  note m = wrapper_done_moves [of it s3]
  note f5 = moves_fields [OF m] and p5 = moves_proj [OF m]
  show "launched (trace (admit s)) = launched (trace s)"
    using res p4 p5 by simp
  show "dequeued (trace (admit s)) = dequeued (trace s) @ [it]"
    using res p4 p5 by simp
  show "completed (trace (admit s)) = completed (trace s) @ [it]"
    using res p4 p5 by simp
  show "inProgressCount (admit s) = inProgressCount s"
    using res f4 f5 by simp
  show "queue (admit s) = rest"
    using res f4 f5 by simp
  show "inflight (admit s) = inflight s"
    using res f4 f5 by simp
  show "retrieving (admit s) = retrieving s"
    using res f4 f5 by simp
  show "calls_of EvNoWork (trace (admit s))
           = calls_of EvNoWork (trace s)
             + (if inProgressCount s = 0 \<and> rest = [] \<and> callbacks s EvNoWork \<noteq> None
                then 1 else 0)"
    unfolding res wrapper_done_calls(1) using f4 nw by simp
qed

text \<open>
  C8. When the promise of \<open>beforeItemProcessed\<close> settles with SKIP for a waiting item,
  the item is finished in that turn without its task or the processor being called:
  nothing is launched, the item is completed and leaves the waiting items, and the
  counter goes down by one. The handler that runs when an item is done runs as for any
  other item: \<open>noWork\<close> is called if the counter is now 0 and the queue is empty,
  \<open>afterPauseCompleted\<close> if the counter is 0 and the queue is paused, and
  \<open>afterHaltCompleted\<close> if the counter is 0 and the queue is halted. The items behind it
  stay queued in their order. When the callback answers SKIP for the item at the front
  of a running queue with room left, and its promises settle at once, the item is
  dequeued and completed and the counter is back at its value. With three tasks and a
  callback that answers SKIP on its second call only, the first and the third task are
  called, in that order, all three items are completed, nothing is left in progress, and
  \<open>noWork\<close> is called once, at the end. With two tasks and the same callback, the
  skipped task is the last item and its completion is what calls \<open>noWork\<close>.
\<close>

theorem C8_skip_counts_as_completed:
  "(n < length (retrieving s) \<and> retrieving s ! n = (it, BeforeItemCalled p)
      \<and> resolved_value p = BEFORE_SKIP
    \<longrightarrow> launched (trace (proceed n s)) = launched (trace s)
        \<and> completed (trace (proceed n s)) = completed (trace s) @ [it]
        \<and> inProgressCount (proceed n s) = inProgressCount s - 1
        \<and> retrieving (proceed n s) = take n (retrieving s) @ drop (Suc n) (retrieving s)
        \<and> queue (proceed n s) = queue s
        \<and> inflight (proceed n s) = inflight s
        \<and> calls_of EvNoWork (trace (proceed n s))
            = calls_of EvNoWork (trace s)
              + (if inProgressCount s - 1 = 0 \<and> queue s = [] \<and> callbacks s EvNoWork \<noteq> None
                 then 1 else 0)
        \<and> calls_of EvAfterPauseCompleted (trace (proceed n s))
            = calls_of EvAfterPauseCompleted (trace s)
              + (if inProgressCount s - 1 = 0 \<and> paused s
                    \<and> callbacks s EvAfterPauseCompleted \<noteq> None
                 then 1 else 0)
        \<and> (halted s
            \<longrightarrow> calls_of EvAfterHaltCompleted (trace (proceed n s))
                  = calls_of EvAfterHaltCompleted (trace s)
                    + (if inProgressCount s - 1 = 0 \<and> callbacks s EvAfterHaltCompleted \<noteq> None
                       then 1 else 0)))
   \<and> (\<not> halted s \<and> \<not> paused s \<and> of_int (inProgressCount s) < concurrencyLimit s
      \<and> queue s = it # rest
      \<and> callbacks s EvBeforeItemProcessed = Some cb
      \<and> answer (cb (calls_of EvBeforeItemProcessed (trace s)) JUndefined) = BEFORE_SKIP
    \<longrightarrow> launched (trace (admit s)) = launched (trace s)
        \<and> dequeued (trace (admit s)) = dequeued (trace s) @ [it]
        \<and> completed (trace (admit s)) = completed (trace s) @ [it]
        \<and> inProgressCount (admit s) = inProgressCount s
        \<and> queue (admit s) = rest
        \<and> inflight (admit s) = inflight s
        \<and> retrieving (admit s) = retrieving s
        \<and> calls_of EvNoWork (trace (admit s))
            = calls_of EvNoWork (trace s)
              + (if inProgressCount s = 0 \<and> rest = [] \<and> callbacks s EvNoWork \<noteq> None
                 then 1 else 0))
   \<and> launched (trace (run skip_second_run (fresh_queue 1 None))) = [task 1, task 3]
   \<and> completed (trace (run skip_second_run (fresh_queue 1 None))) = [task 1, task 2, task 3]
   \<and> inProgressCount (run skip_second_run (fresh_queue 1 None)) = 0
   \<and> queue (run skip_second_run (fresh_queue 1 None)) = []
   \<and> calls_of EvNoWork (trace (run skip_second_run (fresh_queue 1 None))) = 1
   \<and> launched (trace (run skip_last_run (fresh_queue 1 None))) = [task 1]
   \<and> completed (trace (run skip_last_run (fresh_queue 1 None))) = [task 1, task 2]
   \<and> calls_of EvNoWork (trace (run (butlast skip_last_run) (fresh_queue 1 None))) = 0
   \<and> calls_of EvNoWork (trace (run skip_last_run (fresh_queue 1 None))) = 1"
proof (intro conjI impI)
  assume a: "n < length (retrieving s) \<and> retrieving s ! n = (it, BeforeItemCalled p)
      \<and> resolved_value p = BEFORE_SKIP"
  let ?b = "s\<lparr>retrieving := take n (retrieving s) @ drop (Suc n) (retrieving s)\<rparr>"
  from a have res: "proceed n s = processNextItemWrapper_done it ?b"
    using proceed_skip [of n s it p] by blast
  note m = wrapper_done_moves [of it ?b]
  note f = moves_fields [OF m] and pr = moves_proj [OF m]
  show "launched (trace (proceed n s)) = launched (trace s)" using res pr by simp
  show "completed (trace (proceed n s)) = completed (trace s) @ [it]" using res pr by simp
  show "inProgressCount (proceed n s) = inProgressCount s - 1" using res f by simp
  show "retrieving (proceed n s) = take n (retrieving s) @ drop (Suc n) (retrieving s)"
    using res f by simp
  show "queue (proceed n s) = queue s" using res f by simp
  show "inflight (proceed n s) = inflight s" using res f by simp
  show "calls_of EvNoWork (trace (proceed n s))
            = calls_of EvNoWork (trace s)
              + (if inProgressCount s - 1 = 0 \<and> queue s = [] \<and> callbacks s EvNoWork \<noteq> None
                 then 1 else 0)"
    unfolding res wrapper_done_calls(1) by simp
  show "calls_of EvAfterPauseCompleted (trace (proceed n s))
            = calls_of EvAfterPauseCompleted (trace s)
              + (if inProgressCount s - 1 = 0 \<and> paused s
                    \<and> callbacks s EvAfterPauseCompleted \<noteq> None
                 then 1 else 0)"
    unfolding res wrapper_done_calls(2) by simp
  assume "halted s"
  then have "halted ?b" by simp
  from wrapper_done_calls(3) [OF this, of it]
  show "calls_of EvAfterHaltCompleted (trace (proceed n s))
                  = calls_of EvAfterHaltCompleted (trace s)
                    + (if inProgressCount s - 1 = 0 \<and> callbacks s EvAfterHaltCompleted \<noteq> None
                       then 1 else 0)"
    unfolding res by simp
next
  assume a: "\<not> halted s \<and> \<not> paused s \<and> of_int (inProgressCount s) < concurrencyLimit s
      \<and> queue s = it # rest
      \<and> callbacks s EvBeforeItemProcessed = Some cb
      \<and> answer (cb (calls_of EvBeforeItemProcessed (trace s)) JUndefined) = BEFORE_SKIP"
  then have b: "before_answer s = BEFORE_SKIP" by (simp add: before_answer_def)
  note e = admit_skip [of s it rest, OF _ _ _ _ b]
  from a e(1) show "launched (trace (admit s)) = launched (trace s)" by blast
  from a e(2) show "dequeued (trace (admit s)) = dequeued (trace s) @ [it]" by blast
  from a e(3) show "completed (trace (admit s)) = completed (trace s) @ [it]" by blast
  from a e(4) show "inProgressCount (admit s) = inProgressCount s" by blast
  from a e(5) show "queue (admit s) = rest" by blast
  from a e(6) show "inflight (admit s) = inflight s" by blast
  from a e(7) show "retrieving (admit s) = retrieving s" by blast
  from a e(8) show "calls_of EvNoWork (trace (admit s))
            = calls_of EvNoWork (trace s)
              + (if inProgressCount s = 0 \<and> rest = [] \<and> callbacks s EvNoWork \<noteq> None
                 then 1 else 0)" by blast
next
  show "launched (trace (run skip_second_run (fresh_queue 1 None))) = [task 1, task 3]"
    by code_simp
  show "completed (trace (run skip_second_run (fresh_queue 1 None))) = [task 1, task 2, task 3]"
    by code_simp
  show "inProgressCount (run skip_second_run (fresh_queue 1 None)) = 0"
    by code_simp
  show "queue (run skip_second_run (fresh_queue 1 None)) = []"
    by code_simp
  show "calls_of EvNoWork (trace (run skip_second_run (fresh_queue 1 None))) = 1"
    by code_simp
  show "launched (trace (run skip_last_run (fresh_queue 1 None))) = [task 1]"
    by code_simp
  show "completed (trace (run skip_last_run (fresh_queue 1 None))) = [task 1, task 2]"
    by code_simp
  show "calls_of EvNoWork (trace (run (butlast skip_last_run) (fresh_queue 1 None))) = 0"
    by code_simp
  show "calls_of EvNoWork (trace (run skip_last_run (fresh_queue 1 None))) = 1"
    by code_simp
qed

theorem C8_skip_counts_as_completed_witness:
  "retrieving (run (butlast skip_last_run) (fresh_queue 1 None))
     = [(task 2, BeforeItemCalled (HandlerReturned EvBeforeItemProcessed (Returns BEFORE_SKIP)))]
   \<and> inProgressCount (run (butlast skip_last_run) (fresh_queue 1 None)) = 1
   \<and> queue (run (butlast skip_last_run) (fresh_queue 1 None)) = []
   \<and> launched (trace (proceed 0 (run (butlast skip_last_run) (fresh_queue 1 None)))) = [task 1]
   \<and> completed (trace (proceed 0 (run (butlast skip_last_run) (fresh_queue 1 None))))
       = [task 1, task 2]
   \<and> inProgressCount (proceed 0 (run (butlast skip_last_run) (fresh_queue 1 None))) = 0
   \<and> calls_of EvNoWork (trace (proceed 0 (run (butlast skip_last_run) (fresh_queue 1 None)))) = 1
   \<and> queue (run (take 8 skip_second_run) (fresh_queue 1 None)) = [task 2, task 3]
   \<and> completed (trace (admit (run (take 9 skip_second_run) (fresh_queue 1 None))))
       = [task 1, task 2]
   \<and> launched (trace (admit (run (take 9 skip_second_run) (fresh_queue 1 None)))) = [task 1]
   \<and> queue (admit (run (take 9 skip_second_run) (fresh_queue 1 None))) = [task 3]"
proof -
  let ?s = "run (butlast skip_last_run) (fresh_queue 1 None)"
  let ?t = "run (take 9 skip_second_run) (fresh_queue 1 None)"
  have s: "retrieving ?s
     = [(task 2, BeforeItemCalled (HandlerReturned EvBeforeItemProcessed (Returns BEFORE_SKIP)))]"
    "inProgressCount ?s = 1" "queue ?s = []" "launched (trace ?s) = [task 1]"
    "completed (trace ?s) = [task 1]" "calls_of EvNoWork (trace ?s) = 0"
    by code_simp+
  have "(case callbacks ?s EvNoWork of None \<Rightarrow> False | Some f \<Rightarrow> True)" by code_simp
  then have reg: "callbacks ?s EvNoWork \<noteq> None" by (simp split: option.splits)
  have t: "\<not> halted ?t" "\<not> paused ?t" "of_int (inProgressCount ?t) < concurrencyLimit ?t"
    "queue ?t = task 2 # [task 3]" "calls_of EvBeforeItemProcessed (trace ?t) = 1"
    "launched (trace ?t) = [task 1]" "completed (trace ?t) = [task 1]"
    by code_simp+
  have "(case callbacks ?t EvBeforeItemProcessed of None \<Rightarrow> False
         | Some f \<Rightarrow> f 1 JUndefined = Returns BEFORE_SKIP)"
    by code_simp
  then obtain f where f: "callbacks ?t EvBeforeItemProcessed = Some f"
    "f 1 JUndefined = Returns BEFORE_SKIP"
    by (auto split: option.splits)
  have q8: "queue (run (take 8 skip_second_run) (fresh_queue 1 None)) = [task 2, task 3]"
    by code_simp
  note C8 = C8_skip_counts_as_completed
  from C8 [where n = 0 and s = ?s and it = "task 2"
             and p = "HandlerReturned EvBeforeItemProcessed (Returns BEFORE_SKIP)"] s reg
  have 1: "launched (trace (proceed 0 ?s)) = [task 1]"
    "completed (trace (proceed 0 ?s)) = [task 1, task 2]"
    "inProgressCount (proceed 0 ?s) = 0"
    "calls_of EvNoWork (trace (proceed 0 ?s)) = 1"
    by simp_all
  from C8 [where s = ?t and it = "task 2" and rest = "[task 3]" and cb = f] t f
  have 2: "completed (trace (admit ?t)) = [task 1, task 2]"
    "launched (trace (admit ?t)) = [task 1]" "queue (admit ?t) = [task 3]"
    by simp_all
  from s 1 2 q8 show ?thesis by simp
qed

section \<open>A result of false\<close>

lemma finish_halt_halted: "halted (finish (halt r) s)"
proof (cases "halted s")
  case True
  then show ?thesis by (simp add: finish_def halt_def)
next
  case False
  obtain s1 p where e: "onHalted r (s\<lparr>halted := True\<rparr>) = (s1, p)" by fastforce
  have "halted s1"
    using e by (auto simp: onHalted_def invoke_def split: option.splits outcome.splits)
  then have "halted (await p s1)" using hooked_fields(8) [OF await_hooked] by blast
  then show ?thesis using False e by (simp add: finish_def halt_def)
qed

lemma halt_calls_halted:
  assumes "\<not> halted s" and "callbacks s EvHalted = Some hcb"
  shows "\<exists>tr. trace (finish (halt r) s) = trace s @ Called EvHalted r # tr"
proof -
  let ?s1 = "s\<lparr>halted := True, trace := trace s @ [Called EvHalted r]\<rparr>"
  obtain s2 p where e: "halt r s = (s2, p)" by fastforce
  then have "s2 = ?s1"
    using assms by (auto simp: halt_def onHalted_def invoke_def split: outcome.splits)
  then have "finish (halt r) s = await p ?s1" using e by (simp add: finish_def)
  with hooked_trace [OF await_hooked [of ?s1 p]] show ?thesis by auto
qed

lemma settle_false:
  assumes "n < length (inflight s)" and "inflight s ! n = (it, Fulfilled (JBool False))"
  shows "halted (settle n s)"
    and "\<not> halted (finish (onItemProcessed (JBool False))
                     (s\<lparr>inflight := take n (inflight s) @ drop (Suc n) (inflight s)\<rparr>))
         \<Longrightarrow> callbacks s EvHalted \<noteq> None
         \<Longrightarrow> \<exists>tr1 tr2. trace (settle n s)
               = trace s @ tr1 @ Called EvHalted (JHaltData PROCESSRETVAL JUndefined JUndefined) # tr2"
proof -
  let ?r = "JHaltData PROCESSRETVAL JUndefined JUndefined"
  let ?s1 = "s\<lparr>inflight := take n (inflight s) @ drop (Suc n) (inflight s)\<rparr>"
  let ?s2 = "finish (onItemProcessed (JBool False)) ?s1"
  let ?s3 = "finish (halt ?r) ?s2"
  have res: "settle n s = processNextItemWrapper_done it ?s3"
    using assms by (simp add: settle_def processNextItem_settled_def Let_def)
  note m = wrapper_done_moves [of it ?s3]
  have "halted (?s3\<lparr>inProgressCount := inProgressCount ?s3 - 1\<rparr>)"
    using finish_halt_halted [of ?r ?s2] by simp
  from moves_fields(8) [OF m this] show "halted (settle n s)" using res by simp
  assume nh: "\<not> halted ?s2" and reg: "callbacks s EvHalted \<noteq> None"
  have h2: "hooked ?s1 ?s2"
    unfolding onItemProcessed_def by (rule finish_callHandler_hooked) simp_all
  from reg hooked_fields(5) [OF h2] obtain hcb where cb: "callbacks ?s2 EvHalted = Some hcb"
    by auto
  obtain tr1 where t2: "trace ?s2 = trace ?s1 @ tr1" using hooked_trace [OF h2] by blast
  obtain tr where t3: "trace ?s3 = trace ?s2 @ Called EvHalted ?r # tr"
    using halt_calls_halted [OF nh cb, of ?r] by blast
  obtain tr' where t4: "trace (processNextItemWrapper_done it ?s3)
      = trace (?s3\<lparr>inProgressCount := inProgressCount ?s3 - 1\<rparr>) @ tr'"
    using moves_trace [OF m] by blast
  have "trace (settle n s) = trace s @ tr1 @ Called EvHalted ?r # (tr @ tr')"
    using res t2 t3 t4 by simp
  then show "\<exists>tr1 tr2. trace (settle n s) = trace s @ tr1 @ Called EvHalted ?r # tr2"
    by blast
qed

text \<open>
  C3. When the promise of a launched item is fulfilled with \<open>false\<close>, the
  queue is halted by the end of that turn, and the other launched items stay in flight.
  The halted callback is called in that turn exactly when the queue was not halted
  before it (and a callback is registered). Its argument has reason PROCESSRETVAL when
  the queue is still not halted after \<open>itemProcessed\<close> has been handled for this
  result; a halt raised before that point, also one raised by \<open>itemProcessed\<close> for
  this same result, keeps its own reason and the callback is not called a second time.
  From then on the queue stays halted, \<open>_evaluateQueue\<close> does nothing and no item is
  dequeued. The promise of an item in flight can still settle, in a halted queue as in
  any other: the item is completed and the counter goes down by one.
\<close>

theorem C3_false_result_halts:
  "(n < length (inflight s) \<and> inflight s ! n = (it, Fulfilled (JBool False))
     \<longrightarrow> halted (settle n s)
        \<and> inflight (settle n s) = take n (inflight s) @ drop (Suc n) (inflight s)
        \<and> calls_of EvHalted (trace (settle n s))
            = calls_of EvHalted (trace s)
              + (if \<not> halted s \<and> callbacks s EvHalted \<noteq> None then 1 else 0)
        \<and> (\<not> halted (finish (onItemProcessed (JBool False))
                       (s\<lparr>inflight := take n (inflight s) @ drop (Suc n) (inflight s)\<rparr>))
              \<and> callbacks s EvHalted \<noteq> None
            \<longrightarrow> (\<exists>tr1 tr2. trace (settle n s)
                    = trace s @ tr1
                        @ Called EvHalted (JHaltData PROCESSRETVAL JUndefined JUndefined) # tr2))
        \<and> halted (run acts (settle n s))
        \<and> evaluateQueue (run acts (settle n s)) = run acts (settle n s)
        \<and> dequeued (trace (run acts (settle n s))) = dequeued (trace (settle n s)))
   \<and> (m < length (inflight t)
     \<longrightarrow> completed (trace (settle m t)) = completed (trace t) @ [fst (inflight t ! m)]
        \<and> inProgressCount (settle m t) = inProgressCount t - 1
        \<and> inflight (settle m t) = take m (inflight t) @ drop (Suc m) (inflight t))"
proof (intro conjI impI)
  assume a: "n < length (inflight s) \<and> inflight s ! n = (it, Fulfilled (JBool False))"
  then have n: "n < length (inflight s)" and i: "inflight s ! n = (it, Fulfilled (JBool False))"
    by simp_all
  note f = moves_fields [OF settle_moves [OF n]]
  show h: "halted (settle n s)" by (rule settle_false(1) [OF n i])
  show "inflight (settle n s) = take n (inflight s) @ drop (Suc n) (inflight s)"
    using f(7) by simp
  show "calls_of EvHalted (trace (settle n s))
            = calls_of EvHalted (trace s)
              + (if \<not> halted s \<and> callbacks s EvHalted \<noteq> None then 1 else 0)"
    using f(10) h by simp
  show "halted (run acts (settle n s))" using run_halted [OF h] by blast
  then show "evaluateQueue (run acts (settle n s)) = run acts (settle n s)"
    by (simp add: evaluateQueue_def)
  show "dequeued (trace (run acts (settle n s))) = dequeued (trace (settle n s))"
    using run_halted [OF h] by blast
  assume "\<not> halted (finish (onItemProcessed (JBool False))
                       (s\<lparr>inflight := take n (inflight s) @ drop (Suc n) (inflight s)\<rparr>))
              \<and> callbacks s EvHalted \<noteq> None"
  then show "\<exists>tr1 tr2. trace (settle n s)
                    = trace s @ tr1
                        @ Called EvHalted (JHaltData PROCESSRETVAL JUndefined JUndefined) # tr2"
    using settle_false(2) [OF n i] by blast
next
  assume m: "m < length (inflight t)"
  note f = moves_fields [OF settle_moves [OF m]] and p = moves_proj [OF settle_moves [OF m]]
  show "completed (trace (settle m t)) = completed (trace t) @ [fst (inflight t ! m)]"
    using p(5) by simp
  show "inProgressCount (settle m t) = inProgressCount t - 1" using f(2) by simp
  show "inflight (settle m t) = take m (inflight t) @ drop (Suc m) (inflight t)"
    using f(7) by simp
qed

text \<open>
  C3 with the reason PROCESSRETVAL for every such item does not hold where
  \<open>itemProcessed\<close> hands the result on: the callback
  returns the \<open>false\<close> it was given, the queue halts for that with reason CALLBACKRETVAL,
  and the halted callback never sees PROCESSRETVAL.
\<close>

theorem C3_halted_reason_can_be_CALLBACKRETVAL:
  "filter (is_call_of EvHalted) (trace (run false_result_run (fresh_queue 1 None)))
     = [Called EvHalted (JHaltData CALLBACKRETVAL JUndefined (JStr ''itemProcessed''))]
   \<and> Called EvHalted (JHaltData PROCESSRETVAL JUndefined JUndefined)
       \<notin> set (trace (run false_result_run (fresh_queue 1 None)))
   \<and> launched (trace (run false_result_run (fresh_queue 1 None))) = [false_task 1]"
  by code_simp

theorem C3_false_result_halts_witness:
  "inflight (run two_in_flight_run (fresh_queue 2 None))
     = [(false_task 1, Fulfilled (JBool False)), (task 2, Fulfilled JUndefined)]
   \<and> \<not> halted (run two_in_flight_run (fresh_queue 2 None))
   \<and> halted (settle 0 (run two_in_flight_run (fresh_queue 2 None)))
   \<and> (\<exists>tr1 tr2. trace (settle 0 (run two_in_flight_run (fresh_queue 2 None)))
         = trace (run two_in_flight_run (fresh_queue 2 None)) @ tr1
             @ Called EvHalted (JHaltData PROCESSRETVAL JUndefined JUndefined) # tr2)
   \<and> dequeued (trace (run [Evaluate, Add (task 4), Evaluate]
                         (settle 0 (run two_in_flight_run (fresh_queue 2 None)))))
       = [false_task 1, task 2]
   \<and> completed (trace (settle 0 (settle 0 (run two_in_flight_run (fresh_queue 2 None)))))
       = [false_task 1, task 2]"
proof -
  let ?s = "run two_in_flight_run (fresh_queue 2 None)"
  let ?t = "settle 0 ?s"
  have i: "inflight ?s = [(false_task 1, Fulfilled (JBool False)), (task 2, Fulfilled JUndefined)]"
    by code_simp
  have nh: "\<not> halted ?s" by code_simp
  have nh2: "\<not> halted (finish (onItemProcessed (JBool False))
                 (?s\<lparr>inflight := take 0 (inflight ?s) @ drop (Suc 0) (inflight ?s)\<rparr>))"
    by code_simp
  have "(case callbacks ?s EvHalted of None \<Rightarrow> False | Some f \<Rightarrow> True)" by code_simp
  then have reg: "callbacks ?s EvHalted \<noteq> None" by (simp split: option.splits)
  have d: "dequeued (trace ?t) = [false_task 1, task 2]" by code_simp
  have c: "completed (trace ?t) = [false_task 1]" by code_simp
  have i2: "inflight ?t = [(task 2, Fulfilled JUndefined)]" by code_simp
  note C3 = C3_false_result_halts
  from C3 [of 0 ?s "false_task 1" "[Evaluate, Add (task 4), Evaluate]" 0 ?t] i nh nh2 reg d c i2
  show ?thesis by simp
qed

section \<open>Pausing a halted queue\<close>

lemma pause_trace:
  "\<exists>tr. trace (pause s) = trace s @ fired EvPaused JUndefined s @ tr"
proof -
  let ?s1 = "s\<lparr>paused := True\<rparr>"
  have "counted (?s1\<lparr>trace := trace ?s1 @ fired EvPaused JUndefined ?s1\<rparr>) (pause s)"
    unfolding pause_def onPaused_def by (rule finish_callHandler_counted) simp_all
  from counted_facts(9) [OF this] show ?thesis by (auto simp: fired_def)
qed

text \<open>
  C6. \<open>pause\<close> does not look at the halted flag. On a halted queue it sets
  the paused flag and calls the \<open>paused\<close> callback, if one is registered; the queue
  stays halted, its backlog, counter, waiting items and items in flight are untouched,
  and \<open>_evaluateQueue\<close> still does nothing. When a launched item is done,
  \<open>afterPauseCompleted\<close> is called once if nothing is left in progress and the queue is
  paused, halted or not, and not at all otherwise; in a halted queue
  \<open>afterHaltCompleted\<close> is called once if nothing is left in progress, paused or not.
\<close>

theorem C6_pause_on_halted_queue:
  "(halted s
     \<longrightarrow> halted (pause s) \<and> paused (pause s)
        \<and> queue (pause s) = queue s \<and> inProgressCount (pause s) = inProgressCount s
        \<and> inflight (pause s) = inflight s \<and> retrieving (pause s) = retrieving s
        \<and> evaluateQueue (pause s) = pause s
        \<and> (callbacks s EvPaused \<noteq> None
            \<longrightarrow> (\<exists>tr. trace (pause s) = trace s @ Called EvPaused JUndefined # tr)))
   \<and> (n < length (inflight t)
     \<longrightarrow> calls_of EvAfterPauseCompleted (trace (settle n t))
           = calls_of EvAfterPauseCompleted (trace t)
             + (if inProgressCount t - 1 = 0 \<and> paused t
                   \<and> callbacks t EvAfterPauseCompleted \<noteq> None
                then 1 else 0)
         \<and> (halted t
             \<longrightarrow> calls_of EvAfterHaltCompleted (trace (settle n t))
                   = calls_of EvAfterHaltCompleted (trace t)
                     + (if inProgressCount t - 1 = 0 \<and> callbacks t EvAfterHaltCompleted \<noteq> None
                        then 1 else 0)))"
proof (intro conjI impI)
  note f = hooked_fields [OF pause_hooked [of s]]
  assume h: "halted s"
  show h': "halted (pause s)" using f(8) h by simp
  show "paused (pause s)" using f(6) by simp
  show "queue (pause s) = queue s" using f(1) by simp
  show "inProgressCount (pause s) = inProgressCount s" using f(2) by simp
  show "inflight (pause s) = inflight s" using f(7) by simp
  show "retrieving (pause s) = retrieving s" using f(11) by simp
  show "evaluateQueue (pause s) = pause s" using h' by (simp add: evaluateQueue_def)
  assume "callbacks s EvPaused \<noteq> None"
  then show "\<exists>tr. trace (pause s) = trace s @ Called EvPaused JUndefined # tr"
    using pause_trace [of s] by (auto simp: fired_def)
next
  assume n: "n < length (inflight t)"
  show "calls_of EvAfterPauseCompleted (trace (settle n t))
           = calls_of EvAfterPauseCompleted (trace t)
             + (if inProgressCount t - 1 = 0 \<and> paused t
                   \<and> callbacks t EvAfterPauseCompleted \<noteq> None
                then 1 else 0)"
    using settle_calls(2) [OF n] .
  assume "halted t"
  then show "calls_of EvAfterHaltCompleted (trace (settle n t))
                   = calls_of EvAfterHaltCompleted (trace t)
                     + (if inProgressCount t - 1 = 0 \<and> callbacks t EvAfterHaltCompleted \<noteq> None
                        then 1 else 0)"
    using settle_calls(3) [OF n] by blast
qed

text \<open>
  C6 in the form "no effect" does not hold: two items are in flight, the first is fulfilled with
  \<open>false\<close> and halts the queue, then \<open>pause\<close> is called. The queue is marked paused, the
  \<open>paused\<close> callback is called, and when the second item is done
  \<open>afterPauseCompleted\<close> is called, which it is not in the same run without \<open>pause\<close>.
\<close>

theorem C6_pause_on_halted_queue_has_effect:
  "halted (run (two_in_flight_run @ [Settle 0]) (fresh_queue 2 None))
   \<and> \<not> paused (run (two_in_flight_run @ [Settle 0]) (fresh_queue 2 None))
   \<and> paused (run (two_in_flight_run @ [Settle 0, Pause]) (fresh_queue 2 None))
   \<and> calls_of EvPaused (trace (run (two_in_flight_run @ [Settle 0]) (fresh_queue 2 None))) = 0
   \<and> calls_of EvPaused (trace (run (two_in_flight_run @ [Settle 0, Pause]) (fresh_queue 2 None))) = 1
   \<and> calls_of EvAfterPauseCompleted
        (trace (run (two_in_flight_run @ [Settle 0, Pause, Settle 0]) (fresh_queue 2 None))) = 1
   \<and> calls_of EvAfterPauseCompleted
        (trace (run (two_in_flight_run @ [Settle 0, Settle 0]) (fresh_queue 2 None))) = 0
   \<and> calls_of EvAfterHaltCompleted
        (trace (run (two_in_flight_run @ [Settle 0, Pause, Settle 0]) (fresh_queue 2 None))) = 1"
  by code_simp

theorem C6_pause_on_halted_queue_witness:
  "halted (run (two_in_flight_run @ [Settle 0]) (fresh_queue 2 None))
   \<and> paused (pause (run (two_in_flight_run @ [Settle 0]) (fresh_queue 2 None)))
   \<and> (\<exists>tr. trace (pause (run (two_in_flight_run @ [Settle 0]) (fresh_queue 2 None)))
         = trace (run (two_in_flight_run @ [Settle 0]) (fresh_queue 2 None))
             @ Called EvPaused JUndefined # tr)
   \<and> calls_of EvAfterPauseCompleted
        (trace (settle 0 (pause (run (two_in_flight_run @ [Settle 0]) (fresh_queue 2 None)))))
       = 1
   \<and> calls_of EvAfterHaltCompleted
        (trace (settle 0 (pause (run (two_in_flight_run @ [Settle 0]) (fresh_queue 2 None)))))
       = 1"
proof -
  let ?s = "run (two_in_flight_run @ [Settle 0]) (fresh_queue 2 None)"
  let ?t = "pause ?s"
  have h: "halted ?s" by code_simp
  have "(case callbacks ?s EvPaused of None \<Rightarrow> False | Some f \<Rightarrow> True)" by code_simp
  then have r1: "callbacks ?s EvPaused \<noteq> None" by (simp split: option.splits)
  have "(case callbacks ?t EvAfterPauseCompleted of None \<Rightarrow> False | Some f \<Rightarrow> True)"
    by code_simp
  then have r2: "callbacks ?t EvAfterPauseCompleted \<noteq> None" by (simp split: option.splits)
  have "(case callbacks ?t EvAfterHaltCompleted of None \<Rightarrow> False | Some f \<Rightarrow> True)"
    by code_simp
  then have r3: "callbacks ?t EvAfterHaltCompleted \<noteq> None" by (simp split: option.splits)
  have t: "0 < length (inflight ?t)" "inProgressCount ?t = 1"
    "calls_of EvAfterPauseCompleted (trace ?t) = 0" "calls_of EvAfterHaltCompleted (trace ?t) = 0"
    by code_simp+
  from C6_pause_on_halted_queue [of ?s 0 ?t] h r1 r2 r3 t
  show ?thesis by simp
qed

end
